theory Spec2Isabelle
  imports Main "HOL-Library.FSet"
begin

section \<open>Identifiers and sets of identifiers\<close>

text \<open>
  Modelled from the spec: the identifier types \<^verbatim>\<open>job_id_t\<close>, \<^verbatim>\<open>data_version_t\<close>,
  \<^verbatim>\<open>job_depth_t\<close>, \<^verbatim>\<open>logical_data_id_t\<close> and \<^verbatim>\<open>physical_data_id_t\<close> are declared in
  \<^verbatim>\<open>shared/nimbus_types.h\<close>, which is not among the sources. The spec has ids handed
  out in monotone ranges and the version as a monotone counter; the code below only
  compares them (\<open>=\<close>, \<open><\<close>, \<open>\<le>\<close>) and never does arithmetic on them, so they are
  taken as natural numbers.
\<close>

type_synonym job_id_t = nat
type_synonym data_version_t = nat
type_synonym job_depth_t = nat
type_synonym logical_data_id_t = nat
type_synonym physical_data_id_t = nat

text \<open>
  Modelled from the spec: the class template \<^verbatim>\<open>IDSet<T>\<close> (\<^verbatim>\<open>shared/idset.h\<close>) is
  missing from the sources. The spec calls its values sets of ids (the \<open>before\<close> set, the
  read and write sets, the live-parent set); the code uses \<^verbatim>\<open>size()\<close> and
  \<^verbatim>\<open>remove(id)\<close>. It is a finite set: \<^verbatim>\<open>size()\<close> is the cardinality and
  \<^verbatim>\<open>remove\<close> deletes the element when it is there.
\<close>

type_synonym 'a IDSet = "'a fset"

definition size_IDSet :: "'a IDSet \<Rightarrow> nat" where
  "size_IDSet s = fcard s"

definition remove_IDSet :: "'a \<Rightarrow> 'a IDSet \<Rightarrow> 'a IDSet" where
  "remove_IDSet x s = s |-| {|x|}"

section \<open>The lineage of a logical data object\<close>

text \<open>
  Modelled from the spec: the class \<^verbatim>\<open>LdlEntry\<close> (\<^verbatim>\<open>scheduler/ldl_entry.h\<close>) is not among
  the sources. The spec has the entries of a chain as \<open>(job_id, version, depth, sterile)\<close>;
  \<^verbatim>\<open>logical_data_lineage.cc\<close> builds an entry from these four values and reads them back
  with \<^verbatim>\<open>job_id()\<close>, \<^verbatim>\<open>version()\<close> and \<^verbatim>\<open>sterile()\<close>.
\<close>

record LdlEntry =
  job_id :: job_id_t
  version :: data_version_t
  job_depth :: job_depth_t
  sterile :: bool

text \<open>
  Modelled from the spec: the types \<^verbatim>\<open>Chain\<close> and \<^verbatim>\<open>Index\<close> are declared in
  \<^verbatim>\<open>scheduler/logical_data_lineage.h\<close>, which is not among the sources. The spec has the
  chain as an ordered sequence of entries and the parent index as holding iterators to
  entries of the chain; the code keeps these iterators across insertions into the chain
  and erasures from it, and moves through both containers with \<^verbatim>\<open>rbegin()\<close>, \<^verbatim>\<open>insert\<close>
  and \<^verbatim>\<open>erase\<close>, so \<^verbatim>\<open>Chain\<close> is a \<^verbatim>\<open>std::list<LdlEntry>\<close> and \<^verbatim>\<open>Index\<close> a
  \<^verbatim>\<open>std::list<Chain::iterator>\<close>. A list iterator designates a node, and it keeps
  designating that node when other nodes are inserted or erased. So every node of the
  chain carries an identity, and an iterator is either the identity of a node or the
  past-the-end iterator of the chain.
\<close>

type_synonym node = nat

datatype chain_iterator = Node node | End

type_synonym Chain = "(node \<times> LdlEntry) list"
type_synonym Index = "chain_iterator list"

text \<open>
  The fields \<^verbatim>\<open>ldid_\<close>, \<^verbatim>\<open>chain_\<close> and \<^verbatim>\<open>parents_index_\<close> of the class (a name cannot
  end in an underscore here, and \<open>chain\<close> is a constant of the library).
\<close>

record LogicalDataLineage =
  ldid :: logical_data_id_t
  chain_ldl :: Chain
  parents_index :: Index

text \<open>
  What the C++ leaves undefined (dereferencing \<^verbatim>\<open>end()\<close> or an iterator whose node has
  been erased) and a failing \<^verbatim>\<open>assert\<close> (which aborts) are the two ways in which an
  operation does not return.
\<close>

datatype error = UndefinedBehaviour | AssertionFailure

definition deref :: "Chain \<Rightarrow> chain_iterator \<Rightarrow> LdlEntry option" where
  "deref c it = (case it of End \<Rightarrow> None | Node a \<Rightarrow> map_of c a)"

fun iterator_nodes :: "Index \<Rightarrow> node list" where
  "iterator_nodes [] = []"
| "iterator_nodes (End # is) = iterator_nodes is"
| "iterator_nodes (Node a # is) = a # iterator_nodes is"

text \<open>
  The identity of a newly allocated node: one that neither a node of the chain nor an
  iterator of the index carries.
\<close>

definition new_node :: "LogicalDataLineage \<Rightarrow> node" where
  "new_node l = Suc (fold max (map fst (chain_ldl l) @ iterator_nodes (parents_index l)) 0)"

text \<open>The position of an iterator: the node at place \<open>p\<close> of the chain, \<^verbatim>\<open>end()\<close> beyond it.\<close>

definition iter_at :: "Chain \<Rightarrow> nat \<Rightarrow> chain_iterator" where
  "iter_at c p = (if p < length c then Node (fst (c ! p)) else End)"

text \<open>\<^verbatim>\<open>std::list::insert(pos, x)\<close>: \<open>x\<close> goes before the element at place \<open>p\<close>.\<close>

definition insert_at :: "nat \<Rightarrow> 'a \<Rightarrow> 'a list \<Rightarrow> 'a list" where
  "insert_at p x xs = take p xs @ [x] @ drop p xs"

text \<open>
  \<^verbatim>\<open>LastVersionInChain\<close> reads \<^verbatim>\<open>chain_.rbegin()->version()\<close>: the version of the last
  entry. On an empty chain \<^verbatim>\<open>rbegin()\<close> is \<^verbatim>\<open>rend()\<close> and the read is undefined.
\<close>

definition LastVersionInChain :: "LogicalDataLineage \<Rightarrow> data_version_t option" where
  "LastVersionInChain l =
     (if chain_ldl l = [] then None else Some (version (snd (last (chain_ldl l)))))"

definition AppendLdlEntry ::
  "job_id_t \<Rightarrow> data_version_t \<Rightarrow> job_depth_t \<Rightarrow> bool \<Rightarrow> LogicalDataLineage
     \<Rightarrow> error + (bool \<times> LogicalDataLineage)" where
  "AppendLdlEntry j v d s l =
     (case LastVersionInChain l of
        None \<Rightarrow> Inl UndefinedBehaviour
      | Some lv \<Rightarrow>
          if \<not> lv < v then Inl AssertionFailure
          else
            let n = new_node l;
                c = chain_ldl l @ [(n, \<lparr>job_id = j, version = v, job_depth = d, sterile = s\<rparr>)];
                idx = (if \<not> s then parents_index l @ [Node n] else parents_index l)
            in Inr (True, l\<lparr>chain_ldl := c, parents_index := idx\<rparr>))"

text \<open>
  The first loop of \<^verbatim>\<open>InsertParentLdlEntry\<close> walks a reverse iterator from \<^verbatim>\<open>rbegin()\<close>
  and stops at the first entry whose version is at most the new one, or at \<^verbatim>\<open>rend()\<close>.
  \<open>chain_rscan\<close> runs on the reversed chain and counts the \<^verbatim>\<open>++it\<close> steps; \<^verbatim>\<open>it.base()\<close>
  is then at place \<open>length c - k\<close>.
\<close>

fun chain_rscan :: "data_version_t \<Rightarrow> Chain \<Rightarrow> nat" where
  "chain_rscan v [] = 0"
| "chain_rscan v ((a, e) # r) = (if version e \<le> v then 0 else Suc (chain_rscan v r))"

text \<open>
  The second loop does the same on the index, and dereferences each iterator it visits
  (\<^verbatim>\<open>(*iit)->version()\<close>).
\<close>

fun index_rscan :: "Chain \<Rightarrow> data_version_t \<Rightarrow> Index \<Rightarrow> error + nat" where
  "index_rscan c v [] = Inr 0"
| "index_rscan c v (i # r) =
     (case deref c i of
        None \<Rightarrow> Inl UndefinedBehaviour
      | Some e \<Rightarrow>
          if version e \<le> v then Inr 0
          else (case index_rscan c v r of Inl x \<Rightarrow> Inl x | Inr k \<Rightarrow> Inr (Suc k)))"

text \<open>
  The third loop visits every iterator of the index, from the last to the first, and
  asserts that the entry it designates is not sterile.
\<close>

fun check_unsterile :: "Chain \<Rightarrow> Index \<Rightarrow> error option" where
  "check_unsterile c [] = None"
| "check_unsterile c (i # r) =
     (case deref c i of
        None \<Rightarrow> Some UndefinedBehaviour
      | Some e \<Rightarrow> if sterile e then Some AssertionFailure else check_unsterile c r)"

text \<open>
  \<^verbatim>\<open>chain_.insert(it.base(), ...)\<close> puts the new node before \<^verbatim>\<open>it.base()\<close> and its result
  (the iterator to the new node) is dropped; \<^verbatim>\<open>it\<close> is not changed, so the
  \<^verbatim>\<open>it.base()\<close> that \<^verbatim>\<open>parents_index_.insert(iit.base(), it.base())\<close> stores is still the
  iterator to the node that was at place \<open>p\<close> before the insertion (\<^verbatim>\<open>end()\<close> when the new
  node went to the tail).
\<close>

definition InsertParentLdlEntry ::
  "job_id_t \<Rightarrow> data_version_t \<Rightarrow> job_depth_t \<Rightarrow> bool \<Rightarrow> LogicalDataLineage
     \<Rightarrow> error + (bool \<times> LogicalDataLineage)" where
  "InsertParentLdlEntry j v d s l =
     (if s then Inl AssertionFailure
      else
        let c = chain_ldl l;
            idx = parents_index l;
            p = length c - chain_rscan v (rev c);
            it_base = iter_at c p;
            c' = insert_at p (new_node l, \<lparr>job_id = j, version = v, job_depth = d, sterile = s\<rparr>) c
        in case index_rscan c' v (rev idx) of
             Inl x \<Rightarrow> Inl x
           | Inr k \<Rightarrow>
               (let idx' = insert_at (length idx - k) it_base idx
                in (case check_unsterile c' (rev idx') of
                      Some x \<Rightarrow> Inl x
                    | None \<Rightarrow> Inr (True, l\<lparr>chain_ldl := c', parents_index := idx'\<rparr>))))"

text \<open>
  The loop of \<^verbatim>\<open>CleanChain\<close>: from the last iterator of the index backwards, remove the
  job id of the designated entry from \<open>temp\<close> and stop as soon as \<open>temp\<close> is empty. The
  result is \<open>temp\<close> at the exit and the number of \<^verbatim>\<open>++iit\<close> steps.
\<close>

fun clean_rscan :: "Chain \<Rightarrow> job_id_t IDSet \<Rightarrow> Index \<Rightarrow> error + (job_id_t IDSet \<times> nat)" where
  "clean_rscan c temp [] = Inr (temp, 0)"
| "clean_rscan c temp (i # r) =
     (case deref c i of
        None \<Rightarrow> Inl UndefinedBehaviour
      | Some e \<Rightarrow>
          let temp' = remove_IDSet (job_id e) temp
          in if size_IDSet temp' = 0 then Inr (temp', 0)
             else (case clean_rscan c temp' r of
                     Inl x \<Rightarrow> Inl x
                   | Inr (t, k) \<Rightarrow> Inr (t, Suc k)))"

text \<open>\<^verbatim>\<open>chain_.erase(chain_.begin(), it)\<close>: the range must end at an iterator of the chain.\<close>

definition erase_until :: "Chain \<Rightarrow> chain_iterator \<Rightarrow> error + Chain" where
  "erase_until c it =
     (case it of
        End \<Rightarrow> Inr []
      | Node a \<Rightarrow>
          if a \<in> fst ` set c then Inr (dropWhile (\<lambda>x. fst x \<noteq> a) c)
          else Inl UndefinedBehaviour)"

definition CleanChain ::
  "job_id_t IDSet \<Rightarrow> LogicalDataLineage \<Rightarrow> error + (bool \<times> LogicalDataLineage)" where
  "CleanChain live_parents l =
     (if size_IDSet live_parents = 0
      then Inr (True, l\<lparr>chain_ldl := [], parents_index := []\<rparr>)
      else
        let idx = parents_index l
        in case clean_rscan (chain_ldl l) live_parents (rev idx) of
             Inl x \<Rightarrow> Inl x
           | Inr (temp, k) \<Rightarrow>
               if size_IDSet temp \<noteq> 0 then Inl AssertionFailure
               else if k \<ge> length idx then Inl UndefinedBehaviour
               else
                 (let q = length idx - Suc k
                  in (case erase_until (chain_ldl l) (idx ! q) of
                        Inl x \<Rightarrow> Inl x
                      | Inr c' \<Rightarrow>
                          Inr (True, l\<lparr>chain_ldl := c', parents_index := drop q idx\<rparr>))))"

text \<open>
  The constructor \<^verbatim>\<open>LogicalDataLineage(ldid)\<close>: an empty chain and an empty index. The
  accessors \<^verbatim>\<open>chain_p()\<close> and \<^verbatim>\<open>parents_index_p()\<close> hand out the two lists themselves, so
  the callers of the class can bring a lineage into other states than the three
  operations above do.
\<close>

definition LogicalDataLineage_new :: "logical_data_id_t \<Rightarrow> LogicalDataLineage" where
  "LogicalDataLineage_new i = \<lparr>ldid = i, chain_ldl = [], parents_index = []\<rparr>"

section \<open>What is said about a lineage\<close>

text \<open>The versions of the chain, from the oldest entry to the newest.\<close>

definition versions :: "Chain \<Rightarrow> data_version_t list" where
  "versions c = map (\<lambda>x. version (snd x)) c"

definition versions_increasing :: "LogicalDataLineage \<Rightarrow> bool" where
  "versions_increasing l = sorted_wrt (<) (versions (chain_ldl l))"

text \<open>
  Every iterator of the parent index designates an entry of the chain, and that entry is
  not sterile.
\<close>

definition index_unsterile :: "LogicalDataLineage \<Rightarrow> bool" where
  "index_unsterile l =
     list_all (\<lambda>i. case deref (chain_ldl l) i of None \<Rightarrow> False | Some e \<Rightarrow> \<not> sterile e)
       (parents_index l)"

text \<open>The place of the node that an iterator designates (the length of the chain for \<^verbatim>\<open>end()\<close>).\<close>

definition place :: "Chain \<Rightarrow> chain_iterator \<Rightarrow> nat" where
  "place c it =
     (case it of End \<Rightarrow> length c | Node a \<Rightarrow> length (takeWhile (\<lambda>x. fst x \<noteq> a) c))"

text \<open>
  A well-formed lineage: the nodes of the chain are distinct, the versions do not
  decrease along the chain, the index designates entries that are not sterile, and the
  index follows the order of the chain.
\<close>

definition wf_lineage :: "LogicalDataLineage \<Rightarrow> bool" where
  "wf_lineage l =
     (distinct (map fst (chain_ldl l)) \<and> sorted (versions (chain_ldl l))
      \<and> index_unsterile l \<and> sorted (map (place (chain_ldl l)) (parents_index l)))"

text \<open>The jobs that wrote the entries of the index, and those that wrote an entry that is not sterile.\<close>

fun index_writers :: "Chain \<Rightarrow> Index \<Rightarrow> job_id_t list" where
  "index_writers c [] = []"
| "index_writers c (i # r) =
     (case deref c i of None \<Rightarrow> index_writers c r | Some e \<Rightarrow> job_id e # index_writers c r)"

definition unsterile_writers :: "Chain \<Rightarrow> job_id_t list" where
  "unsterile_writers c = map (\<lambda>x. job_id (snd x)) (filter (\<lambda>x. \<not> sterile (snd x)) c)"

text \<open>
  The oldest writer that a set of live jobs refers to, in the words of the spec (``the
  oldest live parent''): the place in the index, from the oldest iterator on, of the first
  entry that a live job wrote and that is the newest index entry of that job. When every
  job has one entry in the index, it is the first index entry written by a live job.
\<close>

fun oldest_live_writer :: "Chain \<Rightarrow> job_id_t IDSet \<Rightarrow> Index \<Rightarrow> nat option" where
  "oldest_live_writer c live [] = None"
| "oldest_live_writer c live (i # r) =
     (case deref c i of
        Some e \<Rightarrow>
          if job_id e |\<in>| live \<and> job_id e \<notin> set (index_writers c r) then Some 0
          else map_option Suc (oldest_live_writer c live r)
      | None \<Rightarrow> map_option Suc (oldest_live_writer c live r))"

text \<open>The place of the first index entry, from the oldest on, that a live job wrote.\<close>

fun first_live_writer :: "Chain \<Rightarrow> job_id_t IDSet \<Rightarrow> Index \<Rightarrow> nat option" where
  "first_live_writer c live [] = None"
| "first_live_writer c live (i # r) =
     (case deref c i of
        Some e \<Rightarrow>
          if job_id e |\<in>| live then Some 0
          else map_option Suc (first_live_writer c live r)
      | None \<Rightarrow> map_option Suc (first_live_writer c live r))"

text \<open>Sequences of calls on one lineage; the first call that does not return ends the run.\<close>

datatype lineage_op =
    Append job_id_t data_version_t job_depth_t bool
  | InsertParent job_id_t data_version_t job_depth_t bool
  | Clean "job_id_t IDSet"

fun apply_op :: "lineage_op \<Rightarrow> LogicalDataLineage \<Rightarrow> error + (bool \<times> LogicalDataLineage)" where
  "apply_op (Append j v d s) l = AppendLdlEntry j v d s l"
| "apply_op (InsertParent j v d s) l = InsertParentLdlEntry j v d s l"
| "apply_op (Clean live) l = CleanChain live l"

fun run_ops :: "lineage_op list \<Rightarrow> LogicalDataLineage \<Rightarrow> error + LogicalDataLineage" where
  "run_ops [] l = Inr l"
| "run_ops (x # xs) l =
     (case apply_op x l of Inl err \<Rightarrow> Inl err | Inr (b, l') \<Rightarrow> run_ops xs l')"

text \<open>
  Two lineages to run the operations on: one written by jobs 1 and 3, and one written by
  jobs 1 to 4 in which the entry of job 2 is sterile.
\<close>

definition two_writers :: LogicalDataLineage where
  "two_writers =
     \<lparr>ldid = 7,
      chain_ldl = [(0, \<lparr>job_id = 1, version = 1, job_depth = 0, sterile = False\<rparr>),
                   (1, \<lparr>job_id = 3, version = 3, job_depth = 1, sterile = False\<rparr>)],
      parents_index = [Node 0, Node 1]\<rparr>"

definition four_writers :: LogicalDataLineage where
  "four_writers =
     \<lparr>ldid = 8,
      chain_ldl = [(0, \<lparr>job_id = 1, version = 10, job_depth = 0, sterile = False\<rparr>),
                   (1, \<lparr>job_id = 2, version = 20, job_depth = 1, sterile = True\<rparr>),
                   (2, \<lparr>job_id = 3, version = 30, job_depth = 1, sterile = False\<rparr>),
                   (3, \<lparr>job_id = 4, version = 40, job_depth = 2, sterile = False\<rparr>)],
      parents_index = [Node 0, Node 2, Node 3]\<rparr>"

section \<open>The template manager\<close>

text \<open>
  \<^verbatim>\<open>TemplateManager\<close> keeps a map from template names to \<^verbatim>\<open>TemplateEntry\<close> objects and a
  pointer to the job manager. The classes \<^verbatim>\<open>TemplateEntry\<close> and \<^verbatim>\<open>JobManager\<close>
  (\<^verbatim>\<open>scheduler/template_entry.h\<close>, \<^verbatim>\<open>scheduler/job_manager.h\<close>) are not among the sources,
  so the state of an entry (\<open>'e\<close>) and of the job manager (\<open>'jm\<close>) are type parameters, and
  the member functions of \<^verbatim>\<open>TemplateEntry\<close> that the manager calls are parameters too: each
  takes the entry (and what else the call passes) and gives back its result with the
  entry as the call left it. \<open>'p\<close> is \<^verbatim>\<open>Parameter\<close> and \<open>'r\<close> is \<^verbatim>\<open>GeometricRegion\<close>.
\<close>

record ('e, 'jm, 'p, 'r) TemplateEntry_members =
  new_TemplateEntry :: 'e
  finalized :: "'e \<Rightarrow> bool"
  CleanPartiallyFilledTemplate :: "'e \<Rightarrow> bool \<times> 'e"
  Finalize :: "'e \<Rightarrow> bool \<times> 'e"
  Instantiate ::
    "'e \<Rightarrow> 'jm \<Rightarrow> job_id_t list \<Rightarrow> job_id_t list \<Rightarrow> 'p list \<Rightarrow> job_id_t \<Rightarrow> bool \<times> 'e \<times> 'jm"
  AddComputeJob ::
    "'e \<Rightarrow> string \<Rightarrow> job_id_t \<Rightarrow> logical_data_id_t IDSet \<Rightarrow> logical_data_id_t IDSet
       \<Rightarrow> job_id_t IDSet \<Rightarrow> job_id_t IDSet \<Rightarrow> job_id_t \<Rightarrow> job_id_t \<Rightarrow> bool \<Rightarrow> 'r \<Rightarrow> bool \<times> 'e"

text \<open>
  The entries are heap objects that the map points to, changed in place by the calls; the
  map of the model holds their states. \<open>job_manager = None\<close> is the \<^verbatim>\<open>NULL\<close> pointer.
  The mutex that every member function takes first, and the log, are left out.
\<close>

record ('e, 'jm) TemplateManager =
  template_map :: "string \<rightharpoonup> 'e"
  job_manager :: "'jm option"

definition DetectNewTemplate ::
  "('e, 'jm, 'p, 'r) TemplateEntry_members \<Rightarrow> string \<Rightarrow> ('e, 'jm) TemplateManager
     \<Rightarrow> bool \<times> ('e, 'jm) TemplateManager" where
  "DetectNewTemplate te template_name tm =
     (case template_map tm template_name of
        None \<Rightarrow>
          (True, tm\<lparr>template_map := (template_map tm)(template_name \<mapsto> new_TemplateEntry te)\<rparr>)
      | Some e \<Rightarrow>
          if \<not> finalized te e then
            (case CleanPartiallyFilledTemplate te e of
               (True, e') \<Rightarrow> (True, tm\<lparr>template_map := (template_map tm)(template_name \<mapsto> e')\<rparr>)
             | (False, e') \<Rightarrow> (False, tm\<lparr>template_map := (template_map tm)(template_name \<mapsto> e')\<rparr>))
          else (False, tm))"

definition FinalizeNewTemplate ::
  "('e, 'jm, 'p, 'r) TemplateEntry_members \<Rightarrow> string \<Rightarrow> ('e, 'jm) TemplateManager
     \<Rightarrow> bool \<times> ('e, 'jm) TemplateManager" where
  "FinalizeNewTemplate te template_name tm =
     (case template_map tm template_name of
        Some e \<Rightarrow>
          (case Finalize te e of
             (ok, e') \<Rightarrow> (ok, tm\<lparr>template_map := (template_map tm)(template_name \<mapsto> e')\<rparr>))
      | None \<Rightarrow> (False, tm))"

definition InstantiateTemplate ::
  "('e, 'jm, 'p, 'r) TemplateEntry_members \<Rightarrow> string \<Rightarrow> job_id_t list \<Rightarrow> job_id_t list
     \<Rightarrow> 'p list \<Rightarrow> job_id_t \<Rightarrow> ('e, 'jm) TemplateManager \<Rightarrow> bool \<times> ('e, 'jm) TemplateManager" where
  "InstantiateTemplate te template_name inner_job_ids outer_job_ids parameters parent_job_id tm =
     (case template_map tm template_name of
        Some e \<Rightarrow>
          (case job_manager tm of
             None \<Rightarrow> (False, tm)
           | Some jm \<Rightarrow>
               if finalized te e then
                 (case Instantiate te e jm inner_job_ids outer_job_ids parameters parent_job_id of
                    (ok, e', jm') \<Rightarrow>
                      (ok, tm\<lparr>template_map := (template_map tm)(template_name \<mapsto> e'),
                              job_manager := Some jm'\<rparr>))
               else (False, tm))
      | None \<Rightarrow> (False, tm))"

definition AddComputeJobToTemplate ::
  "('e, 'jm, 'p, 'r) TemplateEntry_members \<Rightarrow> string \<Rightarrow> string \<Rightarrow> job_id_t
     \<Rightarrow> logical_data_id_t IDSet \<Rightarrow> logical_data_id_t IDSet \<Rightarrow> job_id_t IDSet \<Rightarrow> job_id_t IDSet
     \<Rightarrow> job_id_t \<Rightarrow> job_id_t \<Rightarrow> bool \<Rightarrow> 'r \<Rightarrow> ('e, 'jm) TemplateManager
     \<Rightarrow> bool \<times> ('e, 'jm) TemplateManager" where
  "AddComputeJobToTemplate te template_name job_name jid read_set write_set before_set after_set
       parent_job_id future_job_id is_sterile region tm =
     (case template_map tm template_name of
        Some e \<Rightarrow>
          (case job_manager tm of
             None \<Rightarrow> (False, tm)
           | Some jm \<Rightarrow>
               if \<not> finalized te e then
                 (case AddComputeJob te e job_name jid read_set write_set before_set after_set
                         parent_job_id future_job_id is_sterile region of
                    (ok, e') \<Rightarrow> (ok, tm\<lparr>template_map := (template_map tm)(template_name \<mapsto> e')\<rparr>))
               else (False, tm))
      | None \<Rightarrow> (False, tm))"

text \<open>
  A small template entry to run the manager on: a finalized flag and the ids of the jobs
  added so far; the job manager is the list of the complex jobs created.
\<close>

definition flag_entry ::
  "(bool \<times> job_id_t list, job_id_t list, nat, unit) TemplateEntry_members" where
  "flag_entry =
     \<lparr>new_TemplateEntry = (False, []),
      finalized = fst,
      CleanPartiallyFilledTemplate = (\<lambda>e. (True, (False, []))),
      Finalize = (\<lambda>e. (\<not> fst e, (True, snd e))),
      Instantiate = (\<lambda>e jm inner outer ps par. (True, e, par # jm)),
      AddComputeJob = (\<lambda>e jn jid rs ws bs as par fut st reg. (True, (fst e, jid # snd e)))\<rparr>"

definition two_templates :: "(bool \<times> job_id_t list, job_id_t list) TemplateManager" where
  "two_templates =
     \<lparr>template_map = [''done'' \<mapsto> (True, [1, 2]), ''open'' \<mapsto> (False, [3])],
      job_manager = Some []\<rparr>"

section \<open>The job templates of the execution template\<close>

text \<open>
  The nested classes of \<^verbatim>\<open>ExecutionTemplate\<close>. \<^verbatim>\<open>JobIdPtr\<close> and \<^verbatim>\<open>PhyIdPtr\<close> are shared
  pointers and \<^verbatim>\<open>Job *\<close> a plain one; a pointer is the address it holds. The constructor of
  the base class sets \<^verbatim>\<open>type_\<close> and \<^verbatim>\<open>dependency_counter_\<close> and leaves \<^verbatim>\<open>dependency_num_\<close>
  without a value (\<open>None\<close>); each derived class sets it in its own constructor.
\<close>

type_synonym pointer = nat
type_synonym JobIdPtr = pointer
type_synonym PhyIdPtr = pointer
type_synonym PhyIdPtrSet = "pointer fset"
type_synonym PhyIdPtrList = "pointer list"

datatype JobTemplateType = BASE | COMPUTE | COMBINE | LC | RCS | RCR | MEGA_RCR

record JobTemplate =
  job :: pointer
  job_id_ptr :: JobIdPtr
  type_jt :: JobTemplateType
  before_set_jt :: "job_id_t IDSet"
  dependency_num :: "nat option"
  dependency_counter :: nat
  after_set_job_templates :: "pointer list"

text \<open>The members that the derived classes add to the base class.\<close>

datatype derived_members =
    ComputeMembers (read_set_ptr: PhyIdPtrSet) (write_set_ptr: PhyIdPtrSet)
      (scratch_set_ptr: PhyIdPtrSet) (reduce_set_ptr: PhyIdPtrSet)
      (future_job_id_ptr: JobIdPtr) (param_index: nat)
  | CombineMembers (scratch_set_ptr: PhyIdPtrSet) (reduce_set_ptr: PhyIdPtrSet)
  | LocalCopyMembers (from_physical_data_id_ptr: PhyIdPtr) (to_physical_data_id_ptr: PhyIdPtr)
  | RemoteCopySendMembers (from_physical_data_id_ptr: PhyIdPtr)
  | RemoteCopyReceiveMembers (to_physical_data_id_ptr: PhyIdPtr)
  | MegaRCRMembers (to_phy_id_ptrs: PhyIdPtrList)

type_synonym DerivedJobTemplate = "derived_members JobTemplate_scheme"

definition JobTemplate_base :: "pointer \<Rightarrow> JobIdPtr \<Rightarrow> job_id_t IDSet \<Rightarrow> JobTemplate" where
  "JobTemplate_base j jp before_set =
     \<lparr>job = j, job_id_ptr = jp, type_jt = BASE, before_set_jt = before_set,
      dependency_num = None, dependency_counter = 0, after_set_job_templates = []\<rparr>"

definition derive ::
  "JobTemplate \<Rightarrow> JobTemplateType \<Rightarrow> nat \<Rightarrow> derived_members \<Rightarrow> DerivedJobTemplate" where
  "derive b t n m = JobTemplate.extend (b\<lparr>type_jt := t, dependency_num := Some n\<rparr>) m"

definition ComputeJobTemplate ::
  "pointer \<Rightarrow> JobIdPtr \<Rightarrow> PhyIdPtrSet \<Rightarrow> PhyIdPtrSet \<Rightarrow> PhyIdPtrSet \<Rightarrow> PhyIdPtrSet
     \<Rightarrow> job_id_t IDSet \<Rightarrow> JobIdPtr \<Rightarrow> nat \<Rightarrow> DerivedJobTemplate" where
  "ComputeJobTemplate j jp rs ws ss ds before_set fut pidx =
     derive (JobTemplate_base j jp before_set) COMPUTE (size_IDSet before_set)
       (ComputeMembers rs ws ss ds fut pidx)"

definition CombineJobTemplate ::
  "pointer \<Rightarrow> JobIdPtr \<Rightarrow> PhyIdPtrSet \<Rightarrow> PhyIdPtrSet \<Rightarrow> job_id_t IDSet \<Rightarrow> DerivedJobTemplate" where
  "CombineJobTemplate j jp ss ds before_set =
     derive (JobTemplate_base j jp before_set) COMBINE (size_IDSet before_set)
       (CombineMembers ss ds)"

definition LocalCopyJobTemplate ::
  "pointer \<Rightarrow> JobIdPtr \<Rightarrow> PhyIdPtr \<Rightarrow> PhyIdPtr \<Rightarrow> job_id_t IDSet \<Rightarrow> DerivedJobTemplate" where
  "LocalCopyJobTemplate j jp from_p to_p before_set =
     derive (JobTemplate_base j jp before_set) LC (size_IDSet before_set)
       (LocalCopyMembers from_p to_p)"

definition RemoteCopySendJobTemplate ::
  "pointer \<Rightarrow> JobIdPtr \<Rightarrow> PhyIdPtr \<Rightarrow> job_id_t IDSet \<Rightarrow> DerivedJobTemplate" where
  "RemoteCopySendJobTemplate j jp from_p before_set =
     derive (JobTemplate_base j jp before_set) RCS (size_IDSet before_set)
       (RemoteCopySendMembers from_p)"

definition RemoteCopyReceiveJobTemplate ::
  "pointer \<Rightarrow> JobIdPtr \<Rightarrow> PhyIdPtr \<Rightarrow> job_id_t IDSet \<Rightarrow> DerivedJobTemplate" where
  "RemoteCopyReceiveJobTemplate j jp to_p before_set =
     derive (JobTemplate_base j jp before_set) RCR (size_IDSet before_set + 1)
       (RemoteCopyReceiveMembers to_p)"

definition MegaRCRJobTemplate ::
  "pointer \<Rightarrow> JobIdPtr \<Rightarrow> PhyIdPtrList \<Rightarrow> job_id_t IDSet \<Rightarrow> DerivedJobTemplate" where
  "MegaRCRJobTemplate j jp to_ps before_set =
     derive (JobTemplate_base j jp before_set) MEGA_RCR (size_IDSet before_set + length to_ps)
       (MegaRCRMembers to_ps)"

section \<open>Facts about the model\<close>

lemma index_writers_append:
  "index_writers c (xs @ ys) = index_writers c xs @ index_writers c ys"
  by (induction xs) (auto split: option.splits)

lemma set_index_writers:
  "set (index_writers c xs) = {job_id e | i e. i \<in> set xs \<and> deref c i = Some e}"
  by (induction xs) (auto split: option.splits)

lemma set_index_writers_rev: "set (index_writers c (rev xs)) = set (index_writers c xs)"
  by (simp add: set_index_writers)

lemma clean_rscan_result:
  "clean_rscan c temp r = Inr (t, k) \<Longrightarrow> temp \<noteq> {||} \<Longrightarrow>
     (k < length r \<and> t = {||} \<and>
        (\<exists>e. deref c (r ! k) = Some e
             \<and> temp |-| fset_of_list (index_writers c (take k r)) = {|job_id e|}))
     \<or> (k = length r \<and> t \<noteq> {||} \<and> t = temp |-| fset_of_list (index_writers c r))"
proof (induction r arbitrary: temp t k)
  case Nil
  then show ?case by simp
next
  case (Cons i r)
  from Cons.prems obtain e where e: "deref c i = Some e"
    by (auto split: option.splits)
  let ?temp' = "temp |-| {|job_id e|}"
  show ?case
  proof (cases "?temp' = {||}")
    case True
    with Cons.prems e have "t = {||}" "k = 0"
      by (auto simp: remove_IDSet_def size_IDSet_def Let_def)
    moreover from True Cons.prems(2) have "temp = {|job_id e|}" by auto
    ultimately show ?thesis using e by simp
  next
    case False
    with Cons.prems e obtain k' where k': "clean_rscan c ?temp' r = Inr (t, k')" "k = Suc k'"
      by (auto simp: remove_IDSet_def size_IDSet_def Let_def split: sum.splits)
    have eq: "temp |-| fset_of_list (index_writers c (i # xs)) = ?temp' |-| fset_of_list (index_writers c xs)" for xs
      using e by auto
    from Cons.IH[OF k'(1) False] show ?thesis
      using k'(2) e eq[of r] eq[of "take k' r"] by auto
  qed
qed

lemma clean_rscan_returns:
  "\<forall>i \<in> set r. deref c i \<noteq> None \<Longrightarrow> \<exists>t k. clean_rscan c temp r = Inr (t, k)"
proof (induction r arbitrary: temp)
  case Nil
  then show ?case by simp
next
  case (Cons i r)
  then obtain e where e: "deref c i = Some e" by auto
  from Cons obtain t k where "clean_rscan c (remove_IDSet (job_id e) temp) r = Inr (t, k)"
    by (meson list.set_intros(2))
  with e show ?case by (simp add: Let_def)
qed

lemma deref_in_writers:
  "q < length r \<Longrightarrow> deref c (r ! q) = Some e \<Longrightarrow> job_id e \<in> set (index_writers c r)"
  unfolding set_index_writers using nth_mem[of q r] by blast

lemma map_of_in_fst: "map_of c a = Some e \<Longrightarrow> a \<in> fst ` set c"
  by (force dest: map_of_SomeD)

lemma writers_take_subset:
  "set (index_writers c (take n r)) \<subseteq> set (index_writers c r)"
  unfolding set_index_writers using in_set_takeD[of _ n r] by blast

lemma writers_drop_subset:
  "set (index_writers c (drop n r)) \<subseteq> set (index_writers c r)"
  unfolding set_index_writers using in_set_dropD[of _ n r] by blast

lemma oldest_live_writer_at:
  "q < length idx \<Longrightarrow> deref c (idx ! q) = Some e \<Longrightarrow>
   live |-| fset_of_list (index_writers c (drop (Suc q) idx)) = {|job_id e|} \<Longrightarrow>
   oldest_live_writer c live idx = Some q"
proof (induction idx arbitrary: q)
  case Nil
  then show ?case by simp
next
  case (Cons i r)
  show ?case
  proof (cases q)
    case 0
    from Cons.prems(3) 0 have "job_id e |\<in>| live |-| fset_of_list (index_writers c r)"
      by simp
    then have "job_id e |\<in>| live" "job_id e \<notin> set (index_writers c r)"
      by (auto simp: fset_of_list.rep_eq)
    with Cons.prems(2) 0 show ?thesis by simp
  next
    case (Suc q')
    with Cons.prems have q': "q' < length r" "deref c (r ! q') = Some e"
      and eq: "live |-| fset_of_list (index_writers c (drop (Suc q') r)) = {|job_id e|}"
      by simp_all
    from Cons.IH[OF q' eq] have rec: "oldest_live_writer c live r = Some q'" .
    have in_r: "job_id e \<in> set (index_writers c r)"
      using q' by (rule deref_in_writers)
    have skip: "j \<in> set (index_writers c r)" if "j |\<in>| live" for j
    proof (cases "j = job_id e")
      case True
      with in_r show ?thesis by simp
    next
      case False
      with eq that have "j |\<in>| fset_of_list (index_writers c (drop (Suc q') r))"
        by (metis fminus_iff fsingleton_iff)
      then show ?thesis
        using writers_drop_subset[of c "Suc q'" r] by (auto simp: fset_of_list.rep_eq)
    qed
    show ?thesis using rec Suc skip by (auto split: option.splits)
  qed
qed

lemma oldest_live_writer_distinct:
  "distinct (index_writers c idx) \<Longrightarrow>
   oldest_live_writer c live idx = first_live_writer c live idx"
  by (induction idx) (auto split: option.splits)

lemma dropWhile_node:
  "map_of c a = Some e \<Longrightarrow>
   dropWhile (\<lambda>x. fst x \<noteq> a) c \<noteq> [] \<and> hd (dropWhile (\<lambda>x. fst x \<noteq> a) c) = (a, e)"
  by (induction c) (auto split: if_splits)

lemma takeWhile_node: "a \<notin> fst ` set (takeWhile (\<lambda>x. fst x \<noteq> a) c)"
  by (auto dest: set_takeWhileD)

lemma deref_SomeD: "deref c i = Some e \<Longrightarrow> \<exists>a. i = Node a \<and> map_of c a = Some e"
  by (cases i) (auto simp: deref_def)

lemma CleanChain_InrD:
  assumes "live \<noteq> {||}" "CleanChain live l = Inr (b, l')"
  shows "\<exists>q a e. q < length (parents_index l) \<and> parents_index l ! q = Node a
           \<and> map_of (chain_ldl l) a = Some e
           \<and> live |-| fset_of_list (index_writers (chain_ldl l) (drop (Suc q) (parents_index l)))
                = {|job_id e|}
           \<and> b \<and> l' = l\<lparr>chain_ldl := dropWhile (\<lambda>x. fst x \<noteq> a) (chain_ldl l),
                        parents_index := drop q (parents_index l)\<rparr>"
proof -
  let ?c = "chain_ldl l" and ?idx = "parents_index l"
  from assms obtain t k where scan: "clean_rscan ?c live (rev ?idx) = Inr (t, k)"
    by (cases "clean_rscan ?c live (rev ?idx)")
       (auto simp: CleanChain_def size_IDSet_def Let_def)
  with assms have t: "t = {||}" and k: "k < length ?idx"
    by (auto simp: CleanChain_def size_IDSet_def Let_def split: sum.splits if_splits)
  let ?q = "length ?idx - Suc k"
  from clean_rscan_result[OF scan assms(1)] t obtain e where
    e: "deref ?c (rev ?idx ! k) = Some e"
    and one: "live |-| fset_of_list (index_writers ?c (take k (rev ?idx))) = {|job_id e|}"
    by auto
  from k have nth: "rev ?idx ! k = ?idx ! ?q" by (simp add: rev_nth)
  from k have "take k (rev ?idx) = rev (drop (Suc ?q) ?idx)"
    by (simp add: take_rev Suc_diff_Suc)
  then have "fset_of_list (index_writers ?c (take k (rev ?idx)))
             = fset_of_list (index_writers ?c (drop (Suc ?q) ?idx))"
    by (simp add: fset_of_list_elem set_index_writers_rev fset_eq_iff)
  with one have one': "live |-| fset_of_list (index_writers ?c (drop (Suc ?q) ?idx)) = {|job_id e|}"
    by simp
  from e nth obtain a where a: "?idx ! ?q = Node a" "map_of ?c a = Some e"
    by (auto dest: deref_SomeD)
  then have "a \<in> fst ` set ?c" by (simp add: map_of_in_fst)
  with assms scan t k a have "b \<and> l' = l\<lparr>chain_ldl := dropWhile (\<lambda>x. fst x \<noteq> a) ?c,
                        parents_index := drop ?q ?idx\<rparr>"
    by (auto simp: CleanChain_def size_IDSet_def Let_def erase_until_def)
  with a one' k show ?thesis by (intro exI[of _ ?q] exI[of _ a] exI[of _ e]) simp
qed

lemma fold_max_ge: "m \<le> fold max xs (m::nat)"
  by (induction xs arbitrary: m) (auto intro: order_trans[OF max.cobounded2])

lemma fold_max_mem: "x \<in> set xs \<Longrightarrow> x \<le> fold max xs (m::nat)"
proof (induction xs arbitrary: m)
  case Nil
  then show ?case by simp
next
  case (Cons y ys)
  show ?case
  proof (cases "x = y")
    case True
    have "max y m \<le> fold max ys (max y m)" by (rule fold_max_ge)
    with True show ?thesis by simp
  next
    case False
    with Cons show ?thesis by simp
  qed
qed

lemma Node_in_iterator_nodes: "Node a \<in> set idx \<Longrightarrow> a \<in> set (iterator_nodes idx)"
  by (induction idx rule: iterator_nodes.induct) auto

lemma new_node_not_in_chain: "new_node l \<notin> fst ` set (chain_ldl l)"
proof
  assume "new_node l \<in> fst ` set (chain_ldl l)"
  then have "new_node l \<in> set (map fst (chain_ldl l) @ iterator_nodes (parents_index l))"
    by simp
  from fold_max_mem[OF this, of 0] show False by (simp add: new_node_def)
qed

lemma new_node_not_in_index: "Node (new_node l) \<notin> set (parents_index l)"
proof
  assume "Node (new_node l) \<in> set (parents_index l)"
  then have "new_node l \<in> set (map fst (chain_ldl l) @ iterator_nodes (parents_index l))"
    by (simp add: Node_in_iterator_nodes)
  from fold_max_mem[OF this, of 0] show False by (simp add: new_node_def)
qed

lemma chain_rscan_result:
  "chain_rscan v r \<le> length r
   \<and> (\<forall>x \<in> set (take (chain_rscan v r) r). v < version (snd x))
   \<and> (chain_rscan v r < length r \<longrightarrow> version (snd (r ! chain_rscan v r)) \<le> v)"
  by (induction v r rule: chain_rscan.induct) auto

lemma index_rscan_result:
  "index_rscan c v r = Inr k \<Longrightarrow>
   k \<le> length r
   \<and> (\<forall>i \<in> set (take k r). \<exists>e. deref c i = Some e \<and> v < version e)
   \<and> (k < length r \<longrightarrow> (\<exists>e. deref c (r ! k) = Some e \<and> version e \<le> v))"
proof (induction r arbitrary: k)
  case Nil
  then show ?case by simp
next
  case (Cons i r)
  from Cons.prems obtain e where e: "deref c i = Some e" by (auto split: option.splits)
  show ?case
  proof (cases "version e \<le> v")
    case True
    with Cons.prems e show ?thesis by simp
  next
    case False
    with Cons.prems e obtain k' where k': "index_rscan c v r = Inr k'" "k = Suc k'"
      by (auto split: sum.splits)
    from Cons.IH[OF k'(1)] False e k'(2) show ?thesis by auto
  qed
qed

text \<open>A reverse scan that made k steps on a list splits it at place length - k.\<close>

lemma rscan_split:
  assumes "k \<le> length xs"
    and "\<forall>x \<in> set (take k (rev xs)). P x"
    and "k < length xs \<longrightarrow> Q (rev xs ! k)"
  shows "\<exists>pre suf. xs = pre @ suf \<and> length pre = length xs - k
           \<and> take (length xs - k) xs = pre \<and> drop (length xs - k) xs = suf
           \<and> (\<forall>x \<in> set suf. P x) \<and> (pre \<noteq> [] \<longrightarrow> Q (last pre))"
proof -
  let ?p = "length xs - k"
  let ?pre = "take ?p xs" and ?suf = "drop ?p xs"
  from assms(1) have tk: "take k (rev xs) = rev ?suf"
    by (simp add: take_rev)
  with assms(2) have suf: "\<forall>x \<in> set ?suf. P x" by simp
  have "Q (last ?pre)" if "?pre \<noteq> []"
  proof -
    from that have k: "k < length xs" by auto
    then have "rev xs ! k = xs ! (length xs - Suc k)" by (simp add: rev_nth)
    moreover have "last ?pre = ?pre ! (length ?pre - 1)"
      using that by (rule last_conv_nth)
    moreover from k have "?pre ! (length ?pre - 1) = xs ! (length xs - Suc k)"
      by simp
    ultimately show ?thesis using assms(3) k by simp
  qed
  with suf show ?thesis
    by (intro exI[of _ ?pre] exI[of _ ?suf]) (use assms(1) in auto)
qed

lemma check_unsterile_None:
  "(check_unsterile c r = None) = (\<forall>i \<in> set r. \<exists>e. deref c i = Some e \<and> \<not> sterile e)"
  by (induction r) (auto split: option.splits)

lemma InsertParentLdlEntry_InrD:
  assumes "InsertParentLdlEntry j v d s l = Inr (b, l')"
  shows "\<exists>pre nb eb suf ipre isuf.
           chain_ldl l = pre @ (nb, eb) # suf \<and> parents_index l = ipre @ isuf
         \<and> (\<forall>x \<in> set ((nb, eb) # suf). v < version (snd x))
         \<and> (pre \<noteq> [] \<longrightarrow> version (snd (last pre)) \<le> v)
         \<and> (\<forall>i \<in> set isuf. \<exists>e. deref (chain_ldl l') i = Some e \<and> v < version e)
         \<and> (ipre \<noteq> [] \<longrightarrow> (\<exists>e. deref (chain_ldl l') (last ipre) = Some e \<and> version e \<le> v))
         \<and> \<not> s \<and> b
         \<and> chain_ldl l' = pre @ (new_node l, \<lparr>job_id = j, version = v, job_depth = d, sterile = s\<rparr>)
                             # (nb, eb) # suf
         \<and> parents_index l' = ipre @ Node nb # isuf \<and> ldid l' = ldid l
         \<and> (\<forall>i \<in> set (parents_index l'). \<exists>e. deref (chain_ldl l') i = Some e \<and> \<not> sterile e)"
proof -
  let ?c = "chain_ldl l" and ?idx = "parents_index l"
  let ?new = "(new_node l, \<lparr>job_id = j, version = v, job_depth = d, sterile = s\<rparr>)"
  let ?p = "length ?c - chain_rscan v (rev ?c)"
  let ?c' = "insert_at ?p ?new ?c"
  from assms have s: "\<not> s" by (auto simp: InsertParentLdlEntry_def split: if_splits)
  from assms s obtain k where k: "index_rscan ?c' v (rev ?idx) = Inr k"
    by (cases "index_rscan ?c' v (rev ?idx)") (auto simp: InsertParentLdlEntry_def Let_def)
  let ?idx' = "insert_at (length ?idx - k) (iter_at ?c ?p) ?idx"
  from assms s k have chk: "check_unsterile ?c' (rev ?idx') = None"
    and b: "b" and l': "l' = l\<lparr>chain_ldl := ?c', parents_index := ?idx'\<rparr>"
    by (auto simp: InsertParentLdlEntry_def Let_def split: option.splits)
  have "\<exists>pre suf. ?c = pre @ suf \<and> length pre = ?p
           \<and> take ?p ?c = pre \<and> drop ?p ?c = suf
           \<and> (\<forall>x \<in> set suf. v < version (snd x)) \<and> (pre \<noteq> [] \<longrightarrow> version (snd (last pre)) \<le> v)"
    using chain_rscan_result[of v "rev ?c"]
    by (intro rscan_split) simp_all
  then obtain pre suf0 where c: "?c = pre @ suf0" "length pre = ?p" "take ?p ?c = pre"
    "drop ?p ?c = suf0" and suf0: "\<forall>x \<in> set suf0. v < version (snd x)"
    and pre: "pre \<noteq> [] \<longrightarrow> version (snd (last pre)) \<le> v"
    by blast
  have "\<exists>ipre isuf. ?idx = ipre @ isuf \<and> length ipre = length ?idx - k
           \<and> take (length ?idx - k) ?idx = ipre \<and> drop (length ?idx - k) ?idx = isuf
           \<and> (\<forall>i \<in> set isuf. \<exists>e. deref ?c' i = Some e \<and> v < version e)
           \<and> (ipre \<noteq> [] \<longrightarrow> (\<exists>e. deref ?c' (last ipre) = Some e \<and> version e \<le> v))"
    using index_rscan_result[OF k]
    by (intro rscan_split) simp_all
  then obtain ipre isuf where i: "?idx = ipre @ isuf" "take (length ?idx - k) ?idx = ipre"
    "drop (length ?idx - k) ?idx = isuf"
    and isuf: "\<forall>i \<in> set isuf. \<exists>e. deref ?c' i = Some e \<and> v < version e"
    and ipre: "ipre \<noteq> [] \<longrightarrow> (\<exists>e. deref ?c' (last ipre) = Some e \<and> version e \<le> v)"
    by blast
  have c': "?c' = pre @ ?new # suf0" using c by (simp add: insert_at_def)
  have idx': "?idx' = ipre @ iter_at ?c ?p # isuf" using i by (simp add: insert_at_def)
  from chk have all: "\<forall>i \<in> set ?idx'. \<exists>e. deref ?c' i = Some e \<and> \<not> sterile e"
    by (simp add: check_unsterile_None)
  then have "deref ?c' (iter_at ?c ?p) \<noteq> None" using idx' by auto
  then have p: "?p < length ?c" by (auto simp: iter_at_def deref_def split: if_splits)
  then have "suf0 = ?c ! ?p # drop (Suc ?p) ?c" using c(4) by (simp add: Cons_nth_drop_Suc)
  then obtain nb eb suf where suf: "suf0 = (nb, eb) # suf" and nb: "fst (?c ! ?p) = nb"
    by (cases "?c ! ?p") auto
  from p nb have it: "iter_at ?c ?p = Node nb" by (simp add: iter_at_def)
  have cl': "chain_ldl l' = pre @ ?new # (nb, eb) # suf" by (simp add: l' c' suf)
  have il': "parents_index l' = ipre @ Node nb # isuf" using idx' it by (simp add: l')
  have A1: "chain_ldl l = pre @ (nb, eb) # suf" using c(1) suf by simp
  have A3: "\<forall>x \<in> set ((nb, eb) # suf). v < version (snd x)" using suf0 suf by simp
  have A5: "\<forall>i \<in> set isuf. \<exists>e. deref (chain_ldl l') i = Some e \<and> v < version e"
    using isuf by (simp add: l')
  have A6: "ipre \<noteq> [] \<longrightarrow> (\<exists>e. deref (chain_ldl l') (last ipre) = Some e \<and> version e \<le> v)"
    using ipre by (simp add: l')
  have A9: "ldid l' = ldid l" by (simp add: l')
  have A10: "\<forall>i \<in> set (parents_index l'). \<exists>e. deref (chain_ldl l') i = Some e \<and> \<not> sterile e"
    using all by (simp add: l')
  show ?thesis
    by (intro exI[of _ pre] exI[of _ nb] exI[of _ eb] exI[of _ suf] exI[of _ ipre]
        exI[of _ isuf] conjI)
      (rule A1 i(1) A3 pre A5 A6 s b cl' il' A9 A10)+
qed

lemma map_of_append_notin: "a \<notin> fst ` set xs \<Longrightarrow> map_of (xs @ ys) a = map_of ys a"
  by (induction xs) auto

lemma map_of_append_in: "a \<in> fst ` set xs \<Longrightarrow> map_of (xs @ ys) a = map_of xs a"
  by (induction xs) auto

lemma place_append_in:
  "a \<in> fst ` set xs \<Longrightarrow> place (xs @ ys) (Node a) = place xs (Node a)"
  by (induction xs) (auto simp: place_def)

lemma place_append_notin:
  "a \<notin> fst ` set xs \<Longrightarrow> place (xs @ ys) (Node a) = length xs + place ys (Node a)"
  by (induction xs) (auto simp: place_def)

lemma place_less: "a \<in> fst ` set xs \<Longrightarrow> place xs (Node a) < length xs"
  by (induction xs) (auto simp: place_def)

lemma place_Cons:
  "place ((n, e) # xs) (Node a) = (if a = n then 0 else Suc (place xs (Node a)))"
  by (simp add: place_def)

lemma strict_sorted_le_last:
  "sorted_wrt (<) xs \<Longrightarrow> x \<in> set xs \<Longrightarrow> x \<le> last (xs :: nat list)"
  by (induction xs) (auto simp: less_imp_le)

lemma sorted_le_last: "sorted xs \<Longrightarrow> x \<in> set xs \<Longrightarrow> x \<le> last (xs :: nat list)"
  by (induction xs) auto

lemma versions_last: "c \<noteq> [] \<Longrightarrow> last (versions c) = version (snd (last c))"
  by (simp add: versions_def last_map)

lemma AppendLdlEntry_InrD:
  assumes "AppendLdlEntry j v d s l = Inr (b, l')"
  shows "chain_ldl l \<noteq> [] \<and> version (snd (last (chain_ldl l))) < v \<and> b
       \<and> l' = l\<lparr>chain_ldl := chain_ldl l
                    @ [(new_node l, \<lparr>job_id = j, version = v, job_depth = d, sterile = s\<rparr>)],
                  parents_index := (if \<not> s then parents_index l @ [Node (new_node l)]
                                    else parents_index l)\<rparr>"
  using assms
  by (auto simp: AppendLdlEntry_def LastVersionInChain_def Let_def split: if_splits)

lemma Append_increasing:
  assumes "versions_increasing l" "AppendLdlEntry j v d s l = Inr (b, l')"
  shows "versions_increasing l'"
proof -
  from AppendLdlEntry_InrD[OF assms(2)] have ne: "chain_ldl l \<noteq> []"
    and lt: "version (snd (last (chain_ldl l))) < v"
    and c': "versions (chain_ldl l') = versions (chain_ldl l) @ [v]"
    by (auto simp: versions_def)
  have "x < v" if "x \<in> set (versions (chain_ldl l))" for x
    using strict_sorted_le_last[OF assms(1)[unfolded versions_increasing_def] that]
      versions_last[OF ne] lt by simp
  with assms(1) show ?thesis
    by (simp add: versions_increasing_def c' sorted_wrt_append)
qed

lemma Insert_increasing:
  assumes "versions_increasing l" "InsertParentLdlEntry j v d s l = Inr (b, l')"
    and "v \<notin> set (versions (chain_ldl l))"
  shows "versions_increasing l'"
proof -
  from InsertParentLdlEntry_InrD[OF assms(2)] obtain pre nb eb suf where
    c: "chain_ldl l = pre @ (nb, eb) # suf"
    and suf: "\<forall>x \<in> set ((nb, eb) # suf). v < version (snd x)"
    and pre: "pre \<noteq> [] \<longrightarrow> version (snd (last pre)) \<le> v"
    and c': "chain_ldl l' = pre @ (new_node l, \<lparr>job_id = j, version = v, job_depth = d, sterile = s\<rparr>)
                             # (nb, eb) # suf"
    by blast
  from assms(1) c have sp: "sorted_wrt (<) (versions pre)"
    and ss: "sorted_wrt (<) (versions ((nb, eb) # suf))"
    and cross: "\<forall>x \<in> set (versions pre). \<forall>y \<in> set (versions ((nb, eb) # suf)). x < y"
    by (simp_all add: versions_increasing_def versions_def sorted_wrt_append)
  have "x < v" if x: "x \<in> set (versions pre)" for x
  proof -
    from x have ne: "pre \<noteq> []" by (auto simp: versions_def)
    from strict_sorted_le_last[OF sp x] versions_last[OF ne] pre ne have "x \<le> v" by simp
    moreover from x assms(3) c have "x \<noteq> v" by (auto simp: versions_def)
    ultimately show ?thesis by simp
  qed
  moreover from suf have "\<forall>y \<in> set (versions ((nb, eb) # suf)). v < y"
    by (simp add: versions_def)
  ultimately have "sorted_wrt (<) (versions pre @ v # versions ((nb, eb) # suf))"
    using sp ss cross by (simp add: sorted_wrt_append)
  then show ?thesis by (simp add: versions_increasing_def c' versions_def)
qed

lemma Insert_nondecreasing:
  assumes "sorted (versions (chain_ldl l))" "InsertParentLdlEntry j v d s l = Inr (b, l')"
  shows "sorted (versions (chain_ldl l'))"
proof -
  from InsertParentLdlEntry_InrD[OF assms(2)] obtain pre nb eb suf where
    c: "chain_ldl l = pre @ (nb, eb) # suf"
    and suf: "\<forall>x \<in> set ((nb, eb) # suf). v < version (snd x)"
    and pre: "pre \<noteq> [] \<longrightarrow> version (snd (last pre)) \<le> v"
    and c': "chain_ldl l' = pre @ (new_node l, \<lparr>job_id = j, version = v, job_depth = d, sterile = s\<rparr>)
                             # (nb, eb) # suf"
    by blast
  from assms(1) c have sp: "sorted (versions pre)"
    and ss: "sorted (versions ((nb, eb) # suf))"
    and cross: "\<forall>x \<in> set (versions pre). \<forall>y \<in> set (versions ((nb, eb) # suf)). x \<le> y"
    by (simp_all add: versions_def sorted_append)
  have "x \<le> v" if x: "x \<in> set (versions pre)" for x
  proof -
    from x have ne: "pre \<noteq> []" by (auto simp: versions_def)
    from sorted_le_last[OF sp x] versions_last[OF ne] pre ne show "x \<le> v" by simp
  qed
  moreover from suf have "\<forall>y \<in> set (versions ((nb, eb) # suf)). v \<le> y"
    by (auto simp: versions_def less_imp_le)
  ultimately have "sorted (versions pre @ v # versions ((nb, eb) # suf))"
    using sp ss cross by (simp add: sorted_append)
  then show ?thesis by (simp add: c' versions_def)
qed

lemma CleanChain_suffix:
  assumes "CleanChain live l = Inr (b, l')"
  shows "\<exists>pre. chain_ldl l = pre @ chain_ldl l'"
proof (cases "live = {||}")
  case True
  with assms show ?thesis by (auto simp: CleanChain_def size_IDSet_def)
next
  case False
  from CleanChain_InrD[OF False assms] obtain a where
    "chain_ldl l' = dropWhile (\<lambda>x. fst x \<noteq> a) (chain_ldl l)" by auto
  then have "chain_ldl l = takeWhile (\<lambda>x. fst x \<noteq> a) (chain_ldl l) @ chain_ldl l'" by simp
  then show ?thesis ..
qed

lemma Clean_increasing:
  assumes "versions_increasing l" "CleanChain live l = Inr (b, l')"
  shows "versions_increasing l'"
proof -
  from CleanChain_suffix[OF assms(2)] obtain pre where "chain_ldl l = pre @ chain_ldl l'" ..
  with assms(1) show ?thesis
    by (simp add: versions_increasing_def versions_def sorted_wrt_append)
qed

lemma index_unsterile_iff:
  "index_unsterile l =
     (\<forall>i \<in> set (parents_index l). \<exists>e. deref (chain_ldl l) i = Some e \<and> \<not> sterile e)"
  by (auto simp: index_unsterile_def list_all_iff split: option.splits)

lemma sorted_wrt_le_last:
  "sorted_wrt (\<lambda>x y. f x \<le> (f y :: nat)) xs \<Longrightarrow> x \<in> set xs \<Longrightarrow> f x \<le> f (last xs)"
  by (induction xs) auto

lemma Append_wf:
  assumes wf: "wf_lineage l" and app: "AppendLdlEntry j v d s l = Inr (b, l')"
  shows "wf_lineage l'"
proof -
  let ?c = "chain_ldl l" and ?idx = "parents_index l" and ?n = "new_node l"
  let ?E = "\<lparr>job_id = j, version = v, job_depth = d, sterile = s\<rparr>"
  from AppendLdlEntry_InrD[OF app] have ne: "?c \<noteq> []"
    and lt: "version (snd (last ?c)) < v"
    and c': "chain_ldl l' = ?c @ [(?n, ?E)]"
    and idx': "parents_index l' = (if \<not> s then ?idx @ [Node ?n] else ?idx)"
    by auto
  from wf have d: "distinct (map fst ?c)" and sv: "sorted (versions ?c)"
    and un: "\<forall>i \<in> set ?idx. \<exists>e. deref ?c i = Some e \<and> \<not> sterile e"
    and sp: "sorted (map (place ?c) ?idx)"
    by (simp_all add: wf_lineage_def index_unsterile_iff)
  have fresh: "?n \<notin> fst ` set ?c" by (rule new_node_not_in_chain)
  have old: "deref (chain_ldl l') i = deref ?c i \<and> place (chain_ldl l') i = place ?c i
             \<and> place ?c i < length ?c" if "i \<in> set ?idx" for i
  proof -
    from un that obtain e where "deref ?c i = Some e" by blast
    then obtain a where a: "i = Node a" "map_of ?c a = Some e" by (auto dest: deref_SomeD)
    then have "a \<in> fst ` set ?c" by (simp add: map_of_in_fst)
    then show ?thesis
      by (simp add: a c' deref_def map_of_append_in place_append_in place_less)
  qed
  have W1: "distinct (map fst (chain_ldl l'))" using d fresh by (simp add: c')
  have "x \<le> v" if "x \<in> set (versions ?c)" for x
    using sorted_le_last[OF sv that] versions_last[OF ne] lt by simp
  then have W2: "sorted (versions (chain_ldl l'))"
    using sv by (auto simp: c' versions_def sorted_append)
  have newd: "deref (chain_ldl l') (Node ?n) = Some ?E"
    using map_of_append_notin[OF fresh, of "[(?n, ?E)]"]
    by (simp add: c' deref_def del: map_of_append)
  have W3: "index_unsterile l'"
    unfolding index_unsterile_iff using un old newd by (auto simp: idx')
  have newp: "place (chain_ldl l') (Node ?n) = length ?c"
    using fresh by (simp add: c' place_append_notin place_Cons)
  have m: "map (place (chain_ldl l')) ?idx = map (place ?c) ?idx"
    using old by simp
  have W4: "sorted (map (place (chain_ldl l')) (parents_index l'))"
    using sp old newp by (auto simp: idx' m sorted_append less_imp_le)
  from W1 W2 W3 W4 show ?thesis by (simp add: wf_lineage_def)
qed

lemma Clean_wf:
  assumes wf: "wf_lineage l" and cl: "CleanChain live l = Inr (b, l')"
  shows "wf_lineage l'"
proof (cases "live = {||}")
  case True
  with cl show ?thesis
    by (auto simp: CleanChain_def size_IDSet_def wf_lineage_def index_unsterile_def versions_def)
next
  case False
  let ?c = "chain_ldl l" and ?idx = "parents_index l"
  from CleanChain_InrD[OF False cl] obtain q a e where
    q: "q < length ?idx" "?idx ! q = Node a" and a: "map_of ?c a = Some e"
    and l': "l' = l\<lparr>chain_ldl := dropWhile (\<lambda>x. fst x \<noteq> a) ?c, parents_index := drop q ?idx\<rparr>"
    by blast
  let ?pre = "takeWhile (\<lambda>x. fst x \<noteq> a) ?c" and ?c' = "dropWhile (\<lambda>x. fst x \<noteq> a) ?c"
  have split: "?c = ?pre @ ?c'" by simp
  from wf have d: "distinct (map fst ?c)" and sv: "sorted (versions ?c)"
    and un: "\<forall>i \<in> set ?idx. \<exists>e. deref ?c i = Some e \<and> \<not> sterile e"
    and sp: "sorted (map (place ?c) ?idx)"
    by (simp_all add: wf_lineage_def index_unsterile_iff)
  have pa: "place ?c (Node a) = length ?pre" by (simp add: place_def)
  have kept: "deref ?c' i = deref ?c i \<and> place ?c i = length ?pre + place ?c' i"
    if i: "i \<in> set (drop q ?idx)" for i
  proof -
    from i obtain m where m: "i = ?idx ! (q + m)" "q + m < length ?idx"
      by (auto simp: in_set_conv_nth)
    from sp m(2) have "map (place ?c) ?idx ! q \<le> map (place ?c) ?idx ! (q + m)"
      by (intro sorted_nth_mono) simp_all
    with q m have le: "length ?pre \<le> place ?c i" by (simp add: pa)
    from i un obtain e' where "deref ?c i = Some e'" by (meson in_set_dropD)
    then obtain bb where bb: "i = Node bb" "map_of ?c bb = Some e'" by (auto dest: deref_SomeD)
    have notpre: "bb \<notin> fst ` set ?pre"
    proof
      assume "bb \<in> fst ` set ?pre"
      with place_append_in[of bb ?pre ?c'] place_less[of bb ?pre]
      have "place ?c (Node bb) < length ?pre" by simp
      with le bb show False by simp
    qed
    from map_of_append_notin[OF notpre, of ?c'] place_append_notin[OF notpre, of ?c']
    show ?thesis by (simp add: bb deref_def)
  qed
  from d split have W1: "distinct (map fst ?c')" by (metis distinct_append map_append)
  from sv split have W2: "sorted (versions ?c')"
    by (metis versions_def map_append sorted_append)
  have W3: "\<forall>i \<in> set (drop q ?idx). \<exists>e. deref ?c' i = Some e \<and> \<not> sterile e"
    using un kept by (metis in_set_dropD)
  from sp have "sorted_wrt (\<lambda>x y. place ?c x \<le> place ?c y) (drop q ?idx)"
    by (simp add: sorted_map)
  then have "sorted_wrt (\<lambda>x y. place ?c' x \<le> place ?c' y) (drop q ?idx)"
    by (rule sorted_wrt_mono_rel[rotated]) (use kept in auto)
  then have W4: "sorted (map (place ?c') (drop q ?idx))" by (simp add: sorted_map)
  from W1 W2 W3 W4 show ?thesis by (simp add: wf_lineage_def index_unsterile_iff l')
qed

lemma Insert_wf:
  assumes wf: "wf_lineage l" and ins: "InsertParentLdlEntry j v d s l = Inr (b, l')"
  shows "wf_lineage l'"
proof -
  let ?c = "chain_ldl l" and ?idx = "parents_index l" and ?n = "new_node l"
  let ?E = "\<lparr>job_id = j, version = v, job_depth = d, sterile = s\<rparr>"
  let ?c' = "chain_ldl l'"
  from InsertParentLdlEntry_InrD[OF ins] obtain pre nb eb suf ipre isuf where
    c: "?c = pre @ (nb, eb) # suf" and idx: "?idx = ipre @ isuf"
    and suf: "\<forall>x \<in> set ((nb, eb) # suf). v < version (snd x)"
    and pre: "pre \<noteq> [] \<longrightarrow> version (snd (last pre)) \<le> v"
    and isuf: "\<forall>i \<in> set isuf. \<exists>e. deref ?c' i = Some e \<and> v < version e"
    and ipre: "ipre \<noteq> [] \<longrightarrow> (\<exists>e. deref ?c' (last ipre) = Some e \<and> version e \<le> v)"
    and c': "?c' = pre @ (?n, ?E) # (nb, eb) # suf"
    and idx': "parents_index l' = ipre @ Node nb # isuf"
    and all: "\<forall>i \<in> set (parents_index l'). \<exists>e. deref ?c' i = Some e \<and> \<not> sterile e"
    by blast
  let ?suf0 = "(nb, eb) # suf"
  from wf have d: "distinct (map fst ?c)" and sv: "sorted (versions ?c)"
    and sp: "sorted (map (place ?c) ?idx)"
    by (simp_all add: wf_lineage_def)
  have fresh: "?n \<notin> fst ` set ?c" by (rule new_node_not_in_chain)
  have freshi: "Node ?n \<notin> set ?idx" by (rule new_node_not_in_index)
  from sv c have svp: "sorted (versions pre)" by (simp add: versions_def sorted_append)
  have in_pre: "map_of ?c' a = map_of pre a \<and> place ?c' (Node a) = place ?c (Node a)
                \<and> place ?c (Node a) < length pre"
    if "a \<in> fst ` set pre" for a
    using that map_of_append_in[OF that] place_append_in[OF that] place_less[OF that]
    by (simp add: c c' del: map_of_append)
  have not_pre: "map_of ?c' a = map_of ?suf0 a
                 \<and> place ?c' (Node a) = Suc (place ?c (Node a))
                 \<and> length pre \<le> place ?c (Node a)"
    if "a \<notin> fst ` set pre" "a \<noteq> ?n" for a
    using that map_of_append_notin[OF that(1)] place_append_notin[OF that(1)]
    by (simp add: c c' place_Cons del: map_of_append)
  have node: "\<exists>a e. i = Node a \<and> a \<noteq> ?n \<and> map_of ?c' a = Some e" if "i \<in> set ?idx" for i
  proof -
    from that all idx idx' obtain e where "deref ?c' i = Some e" by auto
    then obtain a where "i = Node a" "map_of ?c' a = Some e" by (auto dest: deref_SomeD)
    moreover from this that freshi have "a \<noteq> ?n" by auto
    ultimately show ?thesis by blast
  qed
  have low: "a \<in> fst ` set pre"
    if "a \<noteq> ?n" "map_of ?c' a = Some e" "version e \<le> v" for a e
  proof (rule ccontr)
    assume "a \<notin> fst ` set pre"
    from not_pre[OF this that(1)] that(2) have "map_of ?suf0 a = Some e" by simp
    then have "(a, e) \<in> set ?suf0" by (rule map_of_SomeD)
    with suf have "v < version e" by fastforce
    with that(3) show False by simp
  qed
  have high: "a \<notin> fst ` set pre"
    if "map_of ?c' a = Some e" "v < version e" for a e
  proof
    assume a: "a \<in> fst ` set pre"
    then have ne: "pre \<noteq> []" by auto
    from in_pre[OF a] that(1) have "map_of pre a = Some e" by simp
    then have "(a, e) \<in> set pre" by (rule map_of_SomeD)
    then have "version e \<in> set (versions pre)" by (force simp: versions_def)
    from sorted_le_last[OF svp this] versions_last[OF ne] pre ne have "version e \<le> v" by simp
    with that(2) show False by simp
  qed
  have mono: "place ?c' x \<le> place ?c' y"
    if "x \<in> set ?idx" "y \<in> set ?idx" "place ?c x \<le> place ?c y" for x y
  proof -
    from node[OF that(1)] obtain a where a: "x = Node a" "a \<noteq> ?n" by blast
    from node[OF that(2)] obtain a' where a': "y = Node a'" "a' \<noteq> ?n" by blast
    show ?thesis
    proof (cases "a \<in> fst ` set pre")
      case True
      with in_pre[of a] in_pre[of a'] not_pre[of a'] a a' that(3) show ?thesis
        by (cases "a' \<in> fst ` set pre") auto
    next
      case False
      from not_pre[OF False a(2)] that(3) a a' have "length pre \<le> place ?c (Node a')" by simp
      with in_pre[of a'] have "a' \<notin> fst ` set pre" by fastforce
      from not_pre[OF False a(2)] not_pre[OF this a'(2)] a a' that(3) show ?thesis by simp
    qed
  qed
  from sp have R: "sorted_wrt (\<lambda>x y. place ?c x \<le> place ?c y) ?idx" by (simp add: sorted_map)
  then have R': "sorted_wrt (\<lambda>x y. place ?c' x \<le> place ?c' y) ?idx"
    by (rule sorted_wrt_mono_rel[rotated]) (rule mono)
  from d c have nbp: "nb \<notin> fst ` set pre" by auto
  from fresh c have nbn: "nb \<noteq> ?n" by auto
  have pnb: "place ?c' (Node nb) = Suc (length pre)"
    using place_append_notin[OF nbp, of "(?n, ?E) # (nb, eb) # suf"] nbn
    by (simp add: c' place_Cons)
  have after: "place ?c' (Node nb) \<le> place ?c' y" if y: "y \<in> set isuf" for y
  proof -
    from y idx have "y \<in> set ?idx" by simp
    from node[OF this] obtain a e where a: "y = Node a" "a \<noteq> ?n" "map_of ?c' a = Some e"
      by blast
    with isuf y have "v < version e" by (fastforce simp: deref_def)
    from high[OF a(3) this] have "a \<notin> fst ` set pre" .
    from not_pre[OF this a(2)] show ?thesis by (simp add: pnb a)
  qed
  have before: "place ?c' x \<le> place ?c' (Node nb)" if x: "x \<in> set ipre" for x
  proof -
    from x have ne: "ipre \<noteq> []" by auto
    then have lastin: "last ipre \<in> set ?idx" by (simp add: idx)
    from node[OF this] obtain al el where
      al: "last ipre = Node al" "al \<noteq> ?n" "map_of ?c' al = Some el" by blast
    with ipre ne have "version el \<le> v" by (auto simp: deref_def)
    from low[OF al(2,3) this] have "al \<in> fst ` set pre" .
    from in_pre[OF this] al have lp: "place ?c (last ipre) < length pre" by simp
    from R idx have "sorted_wrt (\<lambda>x y. place ?c x \<le> place ?c y) ipre"
      by (simp add: sorted_wrt_append)
    from sorted_wrt_le_last[OF this x] lp have xp: "place ?c x < length pre" by simp
    from x idx have "x \<in> set ?idx" by simp
    from node[OF this] obtain a where a: "x = Node a" "a \<noteq> ?n" by blast
    have "a \<in> fst ` set pre"
    proof (rule ccontr)
      assume "a \<notin> fst ` set pre"
      from not_pre[OF this a(2)] xp a show False by simp
    qed
    from in_pre[OF this] xp a show ?thesis by (simp add: pnb)
  qed
  have W1: "distinct (map fst ?c')" using d fresh by (auto simp: c c')
  have W2: "sorted (versions ?c')" using sv ins by (rule Insert_nondecreasing)
  have W3: "index_unsterile l'" unfolding index_unsterile_iff by (rule all)
  from R' idx have "sorted_wrt (\<lambda>x y. place ?c' x \<le> place ?c' y) (ipre @ Node nb # isuf)"
    using before after by (auto simp: sorted_wrt_append)
  then have W4: "sorted (map (place ?c') (parents_index l'))"
    by (simp only: idx' sorted_map)
  from W1 W2 W3 W4 show ?thesis by (simp add: wf_lineage_def)
qed

lemma apply_op_wf: "wf_lineage l \<Longrightarrow> apply_op x l = Inr (b, l') \<Longrightarrow> wf_lineage l'"
  by (cases x) (auto intro: Append_wf Insert_wf Clean_wf)

lemma run_ops_wf: "wf_lineage l \<Longrightarrow> run_ops xs l = Inr l' \<Longrightarrow> wf_lineage l'"
proof (induction xs arbitrary: l)
  case Nil
  then show ?case by simp
next
  case (Cons x xs)
  from Cons.prems(2) obtain b l1 where step: "apply_op x l = Inr (b, l1)"
    and rest: "run_ops xs l1 = Inr l'"
    by (auto split: sum.splits)
  from apply_op_wf[OF Cons.prems(1) step] rest show ?case by (rule Cons.IH)
qed

lemma Append_exceeds:
  assumes "sorted (versions (chain_ldl l))" "AppendLdlEntry j v d s l = Inr (b, l')"
    and "x \<in> set (versions (chain_ldl l))"
  shows "x < v"
proof -
  from AppendLdlEntry_InrD[OF assms(2)] have ne: "chain_ldl l \<noteq> []"
    and lt: "version (snd (last (chain_ldl l))) < v"
    by auto
  from sorted_le_last[OF assms(1,3)] versions_last[OF ne] lt show ?thesis by simp
qed

lemma Insert_position:
  assumes "sorted (versions (chain_ldl l))" "InsertParentLdlEntry j v d s l = Inr (b, l')"
  shows "\<exists>pre suf. chain_ldl l = pre @ suf
           \<and> chain_ldl l' = pre @ (new_node l, \<lparr>job_id = j, version = v, job_depth = d,
                                                  sterile = False\<rparr>) # suf
           \<and> (\<forall>x \<in> set (versions pre). x \<le> v) \<and> (\<forall>x \<in> set (versions suf). v < x)"
proof -
  from InsertParentLdlEntry_InrD[OF assms(2)] obtain pre nb eb suf where
    c: "chain_ldl l = pre @ (nb, eb) # suf"
    and suf: "\<forall>x \<in> set ((nb, eb) # suf). v < version (snd x)"
    and pre: "pre \<noteq> [] \<longrightarrow> version (snd (last pre)) \<le> v"
    and s: "\<not> s"
    and c': "chain_ldl l' = pre @ (new_node l, \<lparr>job_id = j, version = v, job_depth = d, sterile = s\<rparr>)
                             # (nb, eb) # suf"
    by blast
  from assms(1) c have sp: "sorted (versions pre)" by (simp add: versions_def sorted_append)
  have "x \<le> v" if x: "x \<in> set (versions pre)" for x
  proof -
    from x have ne: "pre \<noteq> []" by (auto simp: versions_def)
    from sorted_le_last[OF sp x] versions_last[OF ne] pre ne show "x \<le> v" by simp
  qed
  moreover from suf have "\<forall>x \<in> set (versions ((nb, eb) # suf)). v < x"
    by (simp add: versions_def)
  ultimately show ?thesis using c c' s
    by (intro exI[of _ pre] exI[of _ "(nb, eb) # suf"]) simp
qed

lemma index_writers_unsterile:
  assumes "index_unsterile l"
  shows "set (index_writers (chain_ldl l) (parents_index l))
           \<subseteq> set (unsterile_writers (chain_ldl l))"
proof
  fix j assume "j \<in> set (index_writers (chain_ldl l) (parents_index l))"
  then obtain i e where i: "i \<in> set (parents_index l)" "deref (chain_ldl l) i = Some e"
    and j: "j = job_id e"
    by (auto simp: set_index_writers)
  from assms i have ns: "\<not> sterile e" by (auto simp: index_unsterile_iff)
  from i(2) obtain a where "map_of (chain_ldl l) a = Some e" by (auto dest: deref_SomeD)
  then have "(a, e) \<in> set (chain_ldl l)" by (rule map_of_SomeD)
  with ns j show "j \<in> set (unsterile_writers (chain_ldl l))"
    by (force simp: unsterile_writers_def)
qed

lemma apply_op_nonempty:
  assumes "chain_ldl l \<noteq> []" "x \<noteq> Clean {||}" "apply_op x l = Inr (b, l')"
  shows "chain_ldl l' \<noteq> []"
proof (cases x)
  case (Append j v d s)
  with assms(3) AppendLdlEntry_InrD[of j v d s l b l'] show ?thesis by auto
next
  case (InsertParent j v d s)
  with assms(3) InsertParentLdlEntry_InrD[of j v d s l b l'] show ?thesis by auto
next
  case (Clean live)
  with assms(2) have ne: "live \<noteq> {||}" by simp
  from Clean assms(3) have "CleanChain live l = Inr (b, l')" by simp
  from CleanChain_InrD[OF ne this] obtain a e where "map_of (chain_ldl l) a = Some e"
    and "chain_ldl l' = dropWhile (\<lambda>x. fst x \<noteq> a) (chain_ldl l)"
    by auto
  with dropWhile_node[of "chain_ldl l" a e] show ?thesis by simp
qed

lemma run_ops_nonempty:
  "chain_ldl l \<noteq> [] \<Longrightarrow> Clean {||} \<notin> set xs \<Longrightarrow> run_ops xs l = Inr l' \<Longrightarrow> chain_ldl l' \<noteq> []"
proof (induction xs arbitrary: l)
  case Nil
  then show ?case by simp
next
  case (Cons x xs)
  from Cons.prems(3) obtain b l1 where step: "apply_op x l = Inr (b, l1)"
    and rest: "run_ops xs l1 = Inr l'"
    by (auto split: sum.splits)
  from Cons.prems(2) have "x \<noteq> Clean {||}" "Clean {||} \<notin> set xs" by auto
  from apply_op_nonempty[OF Cons.prems(1) this(1) step] this(2) rest show ?case
    by (rule Cons.IH)
qed

lemma CleanChain_outcome:
  assumes "index_unsterile l" "live \<noteq> {||}"
  shows "(live |\<subseteq>| fset_of_list (index_writers (chain_ldl l) (parents_index l))
            \<longrightarrow> (\<exists>l'. CleanChain live l = Inr (True, l'))
              \<and> live |\<subseteq>| fset_of_list (unsterile_writers (chain_ldl l)))
       \<and> (\<not> live |\<subseteq>| fset_of_list (index_writers (chain_ldl l) (parents_index l))
            \<longrightarrow> CleanChain live l = Inl AssertionFailure
              \<and> (\<exists>t. clean_rscan (chain_ldl l) live (rev (parents_index l))
                       = Inr (t, length (parents_index l)) \<and> t \<noteq> {||}))"
proof -
  let ?c = "chain_ldl l" and ?idx = "parents_index l"
  let ?W = "fset_of_list (index_writers ?c ?idx)"
  from assms(1) have ok: "\<forall>i \<in> set (rev ?idx). deref ?c i \<noteq> None"
    by (auto simp: index_unsterile_iff)
  from clean_rscan_returns[OF ok] obtain t k where
    scan: "clean_rscan ?c live (rev ?idx) = Inr (t, k)" by blast
  have Wrev: "fset_of_list (index_writers ?c (rev ?idx)) = ?W"
    by (simp add: fset_of_list_elem set_index_writers_rev fset_eq_iff)
  from clean_rscan_result[OF scan assms(2)] show ?thesis
  proof
    assume h: "k < length (rev ?idx) \<and> t = {||} \<and>
        (\<exists>e. deref ?c (rev ?idx ! k) = Some e
             \<and> live |-| fset_of_list (index_writers ?c (take k (rev ?idx))) = {|job_id e|})"
    then obtain e where e: "deref ?c (rev ?idx ! k) = Some e"
      and one: "live |-| fset_of_list (index_writers ?c (take k (rev ?idx))) = {|job_id e|}"
      by blast
    from h have k: "k < length ?idx" and t: "t = {||}" by simp_all
    have sub: "live |\<subseteq>| ?W"
    proof
      fix j assume j: "j |\<in>| live"
      show "j |\<in>| ?W"
      proof (cases "j = job_id e")
        case True
        have "job_id e \<in> set (index_writers ?c (rev ?idx))"
          using k e by (intro deref_in_writers[of k]) simp_all
        with True show ?thesis by (simp add: fset_of_list.rep_eq set_index_writers_rev)
      next
        case False
        with one j have "j |\<in>| fset_of_list (index_writers ?c (take k (rev ?idx)))"
          by (metis fminus_iff fsingleton_iff)
        then have "j \<in> set (index_writers ?c (rev ?idx))"
          using writers_take_subset[of ?c k "rev ?idx"] by (auto simp: fset_of_list.rep_eq)
        then show ?thesis by (simp add: fset_of_list.rep_eq set_index_writers_rev)
      qed
    qed
    from k have nth: "rev ?idx ! k = ?idx ! (length ?idx - Suc k)" by (simp add: rev_nth)
    with e obtain a where a: "?idx ! (length ?idx - Suc k) = Node a" "map_of ?c a = Some e"
      by (auto dest: deref_SomeD)
    then have "a \<in> fst ` set ?c" by (simp add: map_of_in_fst)
    with scan t k a assms(2) have "\<exists>l'. CleanChain live l = Inr (True, l')"
      by (auto simp: CleanChain_def size_IDSet_def Let_def erase_until_def)
    moreover have "live |\<subseteq>| fset_of_list (unsterile_writers ?c)"
    proof
      fix j assume "j |\<in>| live"
      with sub have "j |\<in>| ?W" by (rule fsubsetD)
      then have "j \<in> set (index_writers ?c ?idx)" by (simp add: fset_of_list_elem)
      with index_writers_unsterile[OF assms(1)]
      show "j |\<in>| fset_of_list (unsterile_writers ?c)" by (auto simp: fset_of_list_elem)
    qed
    ultimately show ?thesis using sub by simp
  next
    assume h: "k = length (rev ?idx) \<and> t \<noteq> {||}
        \<and> t = live |-| fset_of_list (index_writers ?c (rev ?idx))"
    then have nsub: "\<not> live |\<subseteq>| ?W" using Wrev by auto
    from h scan assms(2) have "CleanChain live l = Inl AssertionFailure"
      by (auto simp: CleanChain_def size_IDSet_def Let_def)
    with nsub h scan show ?thesis by auto
  qed
qed

lemma CleanChain_result:
  assumes "live \<noteq> {||}" "CleanChain live l = Inr (b, l')"
  shows "\<exists>q a e pre.
           oldest_live_writer (chain_ldl l) live (parents_index l) = Some q
         \<and> q < length (parents_index l) \<and> parents_index l ! q = Node a
         \<and> deref (chain_ldl l) (Node a) = Some e \<and> job_id e |\<in>| live
         \<and> chain_ldl l = pre @ chain_ldl l' \<and> a \<notin> fst ` set pre
         \<and> chain_ldl l' \<noteq> [] \<and> hd (chain_ldl l') = (a, e)
         \<and> parents_index l' = drop q (parents_index l)
         \<and> hd (parents_index l') = Node a
         \<and> (distinct (index_writers (chain_ldl l) (parents_index l))
              \<longrightarrow> first_live_writer (chain_ldl l) live (parents_index l) = Some q)"
proof -
  let ?c = "chain_ldl l" and ?idx = "parents_index l"
  from CleanChain_InrD[OF assms] obtain q a e where
    q: "q < length ?idx" "?idx ! q = Node a" and a: "map_of ?c a = Some e"
    and one: "live |-| fset_of_list (index_writers ?c (drop (Suc q) ?idx)) = {|job_id e|}"
    and l': "l' = l\<lparr>chain_ldl := dropWhile (\<lambda>x. fst x \<noteq> a) ?c, parents_index := drop q ?idx\<rparr>"
    by blast
  from a q have d: "deref ?c (?idx ! q) = Some e" by (simp add: deref_def)
  have old: "oldest_live_writer ?c live ?idx = Some q"
    by (rule oldest_live_writer_at[OF q(1) d one])
  from one have live: "job_id e |\<in>| live" by (metis fminus_iff fsingleton_iff)
  let ?pre = "takeWhile (\<lambda>x. fst x \<noteq> a) ?c"
  have "?c = ?pre @ chain_ldl l'" by (simp add: l')
  moreover have "a \<notin> fst ` set ?pre" by (rule takeWhile_node)
  moreover have "chain_ldl l' \<noteq> [] \<and> hd (chain_ldl l') = (a, e)"
    using dropWhile_node[OF a] by (simp add: l')
  moreover have "hd (parents_index l') = Node a"
    using q by (simp add: l' hd_drop_conv_nth)
  moreover have "distinct (index_writers ?c ?idx) \<longrightarrow> first_live_writer ?c live ?idx = Some q"
    using old oldest_live_writer_distinct[of ?c ?idx live] by auto
  ultimately show ?thesis using old q a live l'
    by (intro exI[of _ q] exI[of _ a] exI[of _ e] exI[of _ ?pre]) (simp add: deref_def)
qed

section \<open>Clearing a lineage\<close>

text \<open>
  C8. For every lineage state, \<^verbatim>\<open>CleanChain\<close> applied to the empty live-parent set
  returns true and leaves both the chain and the parent index empty.
\<close>

theorem CleanChain_empty_live:
  "\<exists>l'. CleanChain {||} l = Inr (True, l') \<and> chain_ldl l' = [] \<and> parents_index l' = []
        \<and> ldid l' = ldid l"
  by (simp add: CleanChain_def size_IDSet_def)

section \<open>Dependency counts of the job templates\<close>

text \<open>
  C7. The dependency count of a job template follows from its kind: a remote-copy-receive
  template has the size of its before set plus one, a mega-receive template the size of
  its before set plus the number of its destination physical ids, and compute, combine,
  local-copy and remote-copy-send templates the size of their before set.
\<close>

theorem dependency_num_by_kind:
  "dependency_num (RemoteCopyReceiveJobTemplate j jp to_p before_set)
     = Some (size_IDSet before_set + 1)
   \<and> dependency_num (MegaRCRJobTemplate j jp to_ps before_set)
     = Some (size_IDSet before_set + length to_ps)
   \<and> dependency_num (ComputeJobTemplate j jp rs ws ss ds before_set fut pidx)
     = Some (size_IDSet before_set)
   \<and> dependency_num (CombineJobTemplate j jp ss ds before_set) = Some (size_IDSet before_set)
   \<and> dependency_num (LocalCopyJobTemplate j jp from_p to_p before_set) = Some (size_IDSet before_set)
   \<and> dependency_num (RemoteCopySendJobTemplate j jp from_p before_set) = Some (size_IDSet before_set)"
  by (simp add: RemoteCopyReceiveJobTemplate_def MegaRCRJobTemplate_def ComputeJobTemplate_def
      CombineJobTemplate_def LocalCopyJobTemplate_def RemoteCopySendJobTemplate_def
      derive_def JobTemplate_base_def JobTemplate.defs)

section \<open>Template operations in the wrong state\<close>

text \<open>
  C6. A template operation called in the wrong state returns false and leaves the
  manager (the template map and the job manager, where a complex job would be created)
  as it was: \<^verbatim>\<open>DetectNewTemplate\<close> on a finalized template; \<^verbatim>\<open>FinalizeNewTemplate\<close> and
  \<^verbatim>\<open>AddComputeJobToTemplate\<close> on a name that was not detected; \<^verbatim>\<open>AddComputeJobToTemplate\<close>
  on a finalized template; \<^verbatim>\<open>InstantiateTemplate\<close> on a name that was not detected or on a
  template that is not finalized.
\<close>

theorem wrong_state_refused:
  "(template_map tm name = Some e \<and> finalized te e \<longrightarrow>
      DetectNewTemplate te name tm = (False, tm))
   \<and> (template_map tm name = None \<longrightarrow> FinalizeNewTemplate te name tm = (False, tm))
   \<and> (template_map tm name = None \<longrightarrow>
        AddComputeJobToTemplate te name jn jid rs ws bs as par fut st reg tm = (False, tm))
   \<and> (template_map tm name = Some e \<and> finalized te e \<longrightarrow>
        AddComputeJobToTemplate te name jn jid rs ws bs as par fut st reg tm = (False, tm))
   \<and> (template_map tm name = None \<longrightarrow>
        InstantiateTemplate te name inner outer params par tm = (False, tm))
   \<and> (template_map tm name = Some e \<and> \<not> finalized te e \<longrightarrow>
        InstantiateTemplate te name inner outer params par tm = (False, tm))"
  by (simp add: DetectNewTemplate_def FinalizeNewTemplate_def AddComputeJobToTemplate_def
      InstantiateTemplate_def split: option.splits)

theorem wrong_state_refused_witness:
  "template_map two_templates ''done'' = Some (True, [1, 2])
   \<and> finalized flag_entry (True, [1, 2])
   \<and> DetectNewTemplate flag_entry ''done'' two_templates = (False, two_templates)
   \<and> template_map two_templates ''new'' = None
   \<and> FinalizeNewTemplate flag_entry ''new'' two_templates = (False, two_templates)
   \<and> AddComputeJobToTemplate flag_entry ''new'' ''advect'' 9 {|1|} {|2|} {|8|} {||} 5 0 False ()
         two_templates = (False, two_templates)
   \<and> AddComputeJobToTemplate flag_entry ''done'' ''advect'' 9 {|1|} {|2|} {|8|} {||} 5 0 False ()
         two_templates = (False, two_templates)
   \<and> InstantiateTemplate flag_entry ''new'' [10, 11] [12] [0, 1] 5 two_templates
       = (False, two_templates)
   \<and> template_map two_templates ''open'' = Some (False, [3])
   \<and> \<not> finalized flag_entry (False, [3])
   \<and> InstantiateTemplate flag_entry ''open'' [10, 11] [12] [0, 1] 5 two_templates
       = (False, two_templates)"
proof -
  have d: "template_map two_templates ''done'' = Some (True, [1, 2])"
    and df: "finalized flag_entry (True, [1, 2])"
    and n: "template_map two_templates ''new'' = None"
    and p: "template_map two_templates ''open'' = Some (False, [3])"
    and pf: "\<not> finalized flag_entry (False, [3])"
    by (simp_all add: two_templates_def flag_entry_def)
  note w = wrong_state_refused[where te = flag_entry and tm = two_templates and jn = "''advect''"
      and jid = 9 and rs = "{|1|}" and ws = "{|2|}" and bs = "{|8|}" and as = "{||}" and par = 5
      and fut = 0 and st = False and reg = "()" and inner = "[10, 11]" and outer = "[12]"
      and params = "[0, 1]"]
  from w[of "''done''" "(True, [1, 2])"] d df
  have 1: "DetectNewTemplate flag_entry ''done'' two_templates = (False, two_templates)"
    and 2: "AddComputeJobToTemplate flag_entry ''done'' ''advect'' 9 {|1|} {|2|} {|8|} {||} 5 0
              False () two_templates = (False, two_templates)"
    by blast+
  from w[of "''new''" "(True, [])"] n
  have 3: "FinalizeNewTemplate flag_entry ''new'' two_templates = (False, two_templates)"
    and 4: "AddComputeJobToTemplate flag_entry ''new'' ''advect'' 9 {|1|} {|2|} {|8|} {||} 5 0
              False () two_templates = (False, two_templates)"
    and 5: "InstantiateTemplate flag_entry ''new'' [10, 11] [12] [0, 1] 5 two_templates
              = (False, two_templates)"
    by blast+
  from w[of "''open''" "(False, [3])"] p pf
  have 6: "InstantiateTemplate flag_entry ''open'' [10, 11] [12] [0, 1] 5 two_templates
              = (False, two_templates)"
    by blast
  from d df 1 n 3 4 2 5 p pf 6 show ?thesis by blast
qed

section \<open>Pruning a lineage to its live parents\<close>

text \<open>
  C2. \<^verbatim>\<open>CleanChain\<close> returns for a non-empty set of live parents when the iterators of the
  index are valid and every live parent wrote an entry of the index. When it returns, the chain that is
  left starts at the entry of the oldest writer that the set refers to (the entries
  before it are gone, the entry and those after it stay), and the parent index that is
  left starts at the iterator to that entry. When no job wrote two entries of the index,
  that entry is the first index entry written by a live job.
\<close>

theorem CleanChain_trims_to_oldest_live:
  assumes "live \<noteq> {||}"
  shows "(CleanChain live l = Inr (b, l') \<longrightarrow>
           (\<exists>q a e pre.
               oldest_live_writer (chain_ldl l) live (parents_index l) = Some q
             \<and> q < length (parents_index l) \<and> parents_index l ! q = Node a
             \<and> deref (chain_ldl l) (Node a) = Some e \<and> job_id e |\<in>| live
             \<and> chain_ldl l = pre @ chain_ldl l' \<and> a \<notin> fst ` set pre
             \<and> chain_ldl l' \<noteq> [] \<and> hd (chain_ldl l') = (a, e)
             \<and> parents_index l' = drop q (parents_index l)
             \<and> hd (parents_index l') = Node a
             \<and> (distinct (index_writers (chain_ldl l) (parents_index l))
                  \<longrightarrow> first_live_writer (chain_ldl l) live (parents_index l) = Some q)))
       \<and> (index_unsterile l
            \<and> live |\<subseteq>| fset_of_list (index_writers (chain_ldl l) (parents_index l))
            \<longrightarrow> (\<exists>l1. CleanChain live l = Inr (True, l1)))"
  using CleanChain_result[OF assms, of l b l'] CleanChain_outcome[OF _ assms, of l] by blast

theorem CleanChain_trims_to_oldest_live_witness:
  "{|3, 4|} \<noteq> ({||} :: nat fset)
   \<and> CleanChain {|3, 4|} four_writers
       = Inr (True, \<lparr>ldid = 8,
                     chain_ldl = [(2, \<lparr>job_id = 3, version = 30, job_depth = 1, sterile = False\<rparr>),
                                  (3, \<lparr>job_id = 4, version = 40, job_depth = 2, sterile = False\<rparr>)],
                     parents_index = [Node 2, Node 3]\<rparr>)
   \<and> oldest_live_writer (chain_ldl four_writers) {|3, 4|} (parents_index four_writers) = Some 1
   \<and> parents_index four_writers ! 1 = Node 2
   \<and> distinct (index_writers (chain_ldl four_writers) (parents_index four_writers))
   \<and> first_live_writer (chain_ldl four_writers) {|3, 4|} (parents_index four_writers) = Some 1
   \<and> index_unsterile four_writers
   \<and> {|3, 4|} |\<subseteq>| fset_of_list (index_writers (chain_ldl four_writers)
                                        (parents_index four_writers))"
proof -
  let ?l' = "\<lparr>ldid = 8,
              chain_ldl = [(2, \<lparr>job_id = 3, version = 30, job_depth = 1, sterile = False\<rparr>),
                           (3, \<lparr>job_id = 4, version = 40, job_depth = 2, sterile = False\<rparr>)],
              parents_index = [Node 2, Node 3]\<rparr>"
  have h1: "{|3, 4|} \<noteq> ({||} :: nat fset)" by simp
  have h2: "CleanChain {|3, 4|} four_writers = Inr (True, ?l')" by code_simp
  have h3: "distinct (index_writers (chain_ldl four_writers) (parents_index four_writers))"
    by code_simp
  from CleanChain_trims_to_oldest_live[OF h1, of four_writers True ?l'] h2 h3 obtain q a where
    q: "oldest_live_writer (chain_ldl four_writers) {|3, 4|} (parents_index four_writers) = Some q"
    "parents_index four_writers ! q = Node a" "hd (parents_index ?l') = Node a"
    "first_live_writer (chain_ldl four_writers) {|3, 4|} (parents_index four_writers) = Some q"
    by blast
  moreover have "oldest_live_writer (chain_ldl four_writers) {|3, 4|} (parents_index four_writers) = Some 1"
    by code_simp
  ultimately have "q = 1" "a = 2" by simp_all
  moreover have "index_unsterile four_writers" by code_simp
  moreover have "{|3, 4|} |\<subseteq>| fset_of_list (index_writers (chain_ldl four_writers)
                                        (parents_index four_writers))"
    by code_simp
  ultimately show ?thesis using q h1 h2 h3 by simp
qed

text \<open>
  C10. With a parent index whose iterators are valid and a non-empty set of live parents,
  \<^verbatim>\<open>CleanChain\<close> returns exactly when every live parent wrote an entry of the index (and
  then every live parent is a writer of an entry of the chain that is not sterile). When
  a live parent is missing, the scan reaches the front of the index with jobs left in the
  working set and the assertion aborts the call; no failure is returned.
\<close>

theorem CleanChain_precondition:
  assumes "index_unsterile l" "live \<noteq> {||}"
  shows "(live |\<subseteq>| fset_of_list (index_writers (chain_ldl l) (parents_index l))
            \<longrightarrow> (\<exists>l'. CleanChain live l = Inr (True, l'))
              \<and> live |\<subseteq>| fset_of_list (unsterile_writers (chain_ldl l)))
       \<and> (\<not> live |\<subseteq>| fset_of_list (index_writers (chain_ldl l) (parents_index l))
            \<longrightarrow> CleanChain live l = Inl AssertionFailure
              \<and> (\<exists>t. clean_rscan (chain_ldl l) live (rev (parents_index l))
                       = Inr (t, length (parents_index l)) \<and> t \<noteq> {||}))"
  using assms by (rule CleanChain_outcome)

theorem CleanChain_precondition_witness:
  "index_unsterile four_writers \<and> {|3, 4|} \<noteq> ({||} :: nat fset) \<and> {|1, 5|} \<noteq> ({||} :: nat fset)
   \<and> {|3, 4|} |\<subseteq>| fset_of_list (index_writers (chain_ldl four_writers) (parents_index four_writers))
   \<and> (\<exists>l'. CleanChain {|3, 4|} four_writers = Inr (True, l'))
   \<and> {|3, 4|} |\<subseteq>| fset_of_list (unsterile_writers (chain_ldl four_writers))
   \<and> \<not> {|1, 5|} |\<subseteq>| fset_of_list (index_writers (chain_ldl four_writers) (parents_index four_writers))
   \<and> CleanChain {|1, 5|} four_writers = Inl AssertionFailure"
proof -
  have h1: "index_unsterile four_writers" by code_simp
  have h2: "{|3, 4|} \<noteq> ({||} :: nat fset)" and h3: "{|1, 5|} \<noteq> ({||} :: nat fset)" by simp_all
  have h4: "{|3, 4|} |\<subseteq>| fset_of_list (index_writers (chain_ldl four_writers) (parents_index four_writers))"
    by code_simp
  have h5: "\<not> {|1, 5|} |\<subseteq>| fset_of_list (index_writers (chain_ldl four_writers) (parents_index four_writers))"
    by code_simp
  from CleanChain_precondition[OF h1 h2] CleanChain_precondition[OF h1 h3] h1 h2 h3 h4 h5
  show ?thesis by blast
qed

section \<open>The order of the versions\<close>

text \<open>
  C1 (as amended). On a chain whose versions increase strictly, \<^verbatim>\<open>AppendLdlEntry\<close> (which
  returns exactly when the chain is not empty and the new version exceeds the last one,
  hence every version of the chain) and
  \<^verbatim>\<open>CleanChain\<close> leave a chain whose versions increase strictly, and so does
  \<^verbatim>\<open>InsertParentLdlEntry\<close> when the new version is not yet a version of the chain.
  \<^verbatim>\<open>InsertParentLdlEntry\<close> puts the new entry after the entries whose version is at most
  the new one and before those whose version is greater, so in every case it leaves a
  chain whose versions do not decrease.
\<close>

theorem versions_stay_increasing:
  assumes "versions_increasing l"
  shows "((\<exists>l1. AppendLdlEntry j v d s l = Inr (True, l1))
            = (chain_ldl l \<noteq> [] \<and> version (snd (last (chain_ldl l))) < v))
       \<and> (AppendLdlEntry j v d s l = Inr (b, l') \<longrightarrow>
            versions_increasing l' \<and> (\<forall>x \<in> set (versions (chain_ldl l)). x < v))
       \<and> (InsertParentLdlEntry j v d s l = Inr (b, l') \<and> v \<notin> set (versions (chain_ldl l))
            \<longrightarrow> versions_increasing l')
       \<and> (InsertParentLdlEntry j v d s l = Inr (b, l') \<longrightarrow>
            sorted (versions (chain_ldl l'))
            \<and> (\<exists>pre suf. chain_ldl l = pre @ suf
                  \<and> chain_ldl l' = pre @ (new_node l, \<lparr>job_id = j, version = v, job_depth = d,
                                                         sterile = False\<rparr>) # suf
                  \<and> (\<forall>x \<in> set (versions pre). x \<le> v)
                  \<and> (\<forall>x \<in> set (versions suf). v < x)))
       \<and> (CleanChain live l = Inr (b, l') \<longrightarrow> versions_increasing l')"
proof -
  from assms have sv: "sorted (versions (chain_ldl l))"
    unfolding versions_increasing_def by (rule strict_sorted_imp_sorted)
  have 1: "versions_increasing l' \<and> (\<forall>x \<in> set (versions (chain_ldl l)). x < v)"
    if "AppendLdlEntry j v d s l = Inr (b, l')"
    using Append_increasing[OF assms that] Append_exceeds[OF sv that] by blast
  have 2: "versions_increasing l'"
    if "InsertParentLdlEntry j v d s l = Inr (b, l')" "v \<notin> set (versions (chain_ldl l))"
    using assms that by (rule Insert_increasing)
  have 3: "sorted (versions (chain_ldl l'))
            \<and> (\<exists>pre suf. chain_ldl l = pre @ suf
                  \<and> chain_ldl l' = pre @ (new_node l, \<lparr>job_id = j, version = v, job_depth = d,
                                                         sterile = False\<rparr>) # suf
                  \<and> (\<forall>x \<in> set (versions pre). x \<le> v)
                  \<and> (\<forall>x \<in> set (versions suf). v < x))"
    if "InsertParentLdlEntry j v d s l = Inr (b, l')"
    using Insert_nondecreasing[OF sv that] Insert_position[OF sv that] by blast
  have 4: "versions_increasing l'" if "CleanChain live l = Inr (b, l')"
    using assms that by (rule Clean_increasing)
  have 5: "(\<exists>l1. AppendLdlEntry j v d s l = Inr (True, l1))
            = (chain_ldl l \<noteq> [] \<and> version (snd (last (chain_ldl l))) < v)"
    by (simp add: AppendLdlEntry_def LastVersionInChain_def Let_def)
  from 1 2 3 4 5 show ?thesis by blast
qed

text \<open>
  With jobs 1 and 3 in the chain at versions 1 and 3, inserting job 2 at version 1 puts
  the new entry after the entry of job 1: the versions of the chain are then 1, 1, 3.
\<close>

theorem insert_equal_version_counterexample:
  "versions_increasing two_writers
   \<and> InsertParentLdlEntry 2 1 1 False two_writers
       = Inr (True, \<lparr>ldid = 7,
                     chain_ldl = [(0, \<lparr>job_id = 1, version = 1, job_depth = 0, sterile = False\<rparr>),
                                  (2, \<lparr>job_id = 2, version = 1, job_depth = 1, sterile = False\<rparr>),
                                  (1, \<lparr>job_id = 3, version = 3, job_depth = 1, sterile = False\<rparr>)],
                     parents_index = [Node 0, Node 1, Node 1]\<rparr>)
   \<and> \<not> versions_increasing
         \<lparr>ldid = 7,
          chain_ldl = [(0, \<lparr>job_id = 1, version = 1, job_depth = 0, sterile = False\<rparr>),
                       (2, \<lparr>job_id = 2, version = 1, job_depth = 1, sterile = False\<rparr>),
                       (1, \<lparr>job_id = 3, version = 3, job_depth = 1, sterile = False\<rparr>)],
          parents_index = [Node 0, Node 1, Node 1]\<rparr>"
  by code_simp

theorem versions_stay_increasing_witness:
  "versions_increasing two_writers
   \<and> AppendLdlEntry 2 5 1 False two_writers = Inr (True, \<lparr>ldid = 7,
          chain_ldl = [(0, \<lparr>job_id = 1, version = 1, job_depth = 0, sterile = False\<rparr>),
                       (1, \<lparr>job_id = 3, version = 3, job_depth = 1, sterile = False\<rparr>),
                       (2, \<lparr>job_id = 2, version = 5, job_depth = 1, sterile = False\<rparr>)],
          parents_index = [Node 0, Node 1, Node 2]\<rparr>)
   \<and> versions_increasing \<lparr>ldid = 7,
          chain_ldl = [(0, \<lparr>job_id = 1, version = 1, job_depth = 0, sterile = False\<rparr>),
                       (1, \<lparr>job_id = 3, version = 3, job_depth = 1, sterile = False\<rparr>),
                       (2, \<lparr>job_id = 2, version = 5, job_depth = 1, sterile = False\<rparr>)],
          parents_index = [Node 0, Node 1, Node 2]\<rparr>
   \<and> InsertParentLdlEntry 2 2 1 False two_writers = Inr (True, \<lparr>ldid = 7,
          chain_ldl = [(0, \<lparr>job_id = 1, version = 1, job_depth = 0, sterile = False\<rparr>),
                       (2, \<lparr>job_id = 2, version = 2, job_depth = 1, sterile = False\<rparr>),
                       (1, \<lparr>job_id = 3, version = 3, job_depth = 1, sterile = False\<rparr>)],
          parents_index = [Node 0, Node 1, Node 1]\<rparr>)
   \<and> 2 \<notin> set (versions (chain_ldl two_writers))
   \<and> versions_increasing \<lparr>ldid = 7,
          chain_ldl = [(0, \<lparr>job_id = 1, version = 1, job_depth = 0, sterile = False\<rparr>),
                       (2, \<lparr>job_id = 2, version = 2, job_depth = 1, sterile = False\<rparr>),
                       (1, \<lparr>job_id = 3, version = 3, job_depth = 1, sterile = False\<rparr>)],
          parents_index = [Node 0, Node 1, Node 1]\<rparr>
   \<and> sorted (versions (chain_ldl \<lparr>ldid = 7,
          chain_ldl = [(0, \<lparr>job_id = 1, version = 1, job_depth = 0, sterile = False\<rparr>),
                       (2, \<lparr>job_id = 2, version = 2, job_depth = 1, sterile = False\<rparr>),
                       (1, \<lparr>job_id = 3, version = 3, job_depth = 1, sterile = False\<rparr>)],
          parents_index = [Node 0, Node 1, Node 1]\<rparr>))
   \<and> CleanChain {|3|} two_writers = Inr (True, \<lparr>ldid = 7,
          chain_ldl = [(1, \<lparr>job_id = 3, version = 3, job_depth = 1, sterile = False\<rparr>)],
          parents_index = [Node 1]\<rparr>)
   \<and> versions_increasing \<lparr>ldid = 7,
          chain_ldl = [(1, \<lparr>job_id = 3, version = 3, job_depth = 1, sterile = False\<rparr>)],
          parents_index = [Node 1]\<rparr>"
proof -
  let ?LA = "\<lparr>ldid = 7,
          chain_ldl = [(0, \<lparr>job_id = 1, version = 1, job_depth = 0, sterile = False\<rparr>),
                       (1, \<lparr>job_id = 3, version = 3, job_depth = 1, sterile = False\<rparr>),
                       (2, \<lparr>job_id = 2, version = 5, job_depth = 1, sterile = False\<rparr>)],
          parents_index = [Node 0, Node 1, Node 2]\<rparr>"
  let ?LI = "\<lparr>ldid = 7,
          chain_ldl = [(0, \<lparr>job_id = 1, version = 1, job_depth = 0, sterile = False\<rparr>),
                       (2, \<lparr>job_id = 2, version = 2, job_depth = 1, sterile = False\<rparr>),
                       (1, \<lparr>job_id = 3, version = 3, job_depth = 1, sterile = False\<rparr>)],
          parents_index = [Node 0, Node 1, Node 1]\<rparr>"
  let ?LC = "\<lparr>ldid = 7,
          chain_ldl = [(1, \<lparr>job_id = 3, version = 3, job_depth = 1, sterile = False\<rparr>)],
          parents_index = [Node 1]\<rparr>"
  have h: "versions_increasing two_writers" by code_simp
  have a: "AppendLdlEntry 2 5 1 False two_writers = Inr (True, ?LA)" by code_simp
  have i: "InsertParentLdlEntry 2 2 1 False two_writers = Inr (True, ?LI)" by code_simp
  have n: "2 \<notin> set (versions (chain_ldl two_writers))" by code_simp
  have c: "CleanChain {|3|} two_writers = Inr (True, ?LC)" by code_simp
  from versions_stay_increasing[OF h, of 2 5 1 False True ?LA "{|3|}"] a
  have 1: "versions_increasing ?LA" by blast
  from versions_stay_increasing[OF h, of 2 2 1 False True ?LI "{|3|}"] i n
  have 2: "versions_increasing ?LI" and 3: "sorted (versions (chain_ldl ?LI))" by blast+
  from versions_stay_increasing[OF h, of 2 5 1 False True ?LC "{|3|}"] c
  have 4: "versions_increasing ?LC" by blast
  from h a 1 i n 2 3 c 4 show ?thesis by blast
qed

section \<open>The parent index\<close>

text \<open>
  C5. The empty lineage is well formed, and in every lineage that a sequence of returning
  calls of \<^verbatim>\<open>AppendLdlEntry\<close>, \<^verbatim>\<open>InsertParentLdlEntry\<close> and \<^verbatim>\<open>CleanChain\<close> reaches from a
  well-formed one, every iterator of the parent index designates an entry of the chain
  whose sterile flag is false. \<^verbatim>\<open>AppendLdlEntry\<close> of a sterile entry leaves the index as it
  was, and \<^verbatim>\<open>InsertParentLdlEntry\<close> of a sterile entry fails its first assertion.
\<close>

theorem parent_index_unsterile:
  "wf_lineage (LogicalDataLineage_new i)
   \<and> (wf_lineage l0 \<and> run_ops ops l0 = Inr l \<longrightarrow> index_unsterile l)
   \<and> (AppendLdlEntry j v d True l0 = Inr (b, l1) \<longrightarrow> parents_index l1 = parents_index l0)
   \<and> InsertParentLdlEntry j v d True l0 = Inl AssertionFailure"
proof -
  have 1: "wf_lineage (LogicalDataLineage_new i)"
    by (simp add: wf_lineage_def LogicalDataLineage_new_def index_unsterile_def versions_def)
  have 2: "wf_lineage l0 \<and> run_ops ops l0 = Inr l \<longrightarrow> index_unsterile l"
    using run_ops_wf[of l0 ops l] by (auto simp: wf_lineage_def)
  have 3: "AppendLdlEntry j v d True l0 = Inr (b, l1) \<longrightarrow> parents_index l1 = parents_index l0"
    using AppendLdlEntry_InrD[of j v d True l0 b l1] by auto
  have 4: "InsertParentLdlEntry j v d True l0 = Inl AssertionFailure"
    by (simp add: InsertParentLdlEntry_def)
  from 1 2 3 4 show ?thesis by blast
qed

theorem parent_index_unsterile_witness:
  "wf_lineage four_writers
   \<and> AppendLdlEntry 5 50 2 True four_writers
       = Inr (True, four_writers\<lparr>chain_ldl := chain_ldl four_writers
                @ [(4, \<lparr>job_id = 5, version = 50, job_depth = 2, sterile = True\<rparr>)]\<rparr>)
   \<and> InsertParentLdlEntry 5 50 2 True four_writers = Inl AssertionFailure
   \<and> run_ops [Append 5 50 2 True, InsertParent 6 25 1 False, Clean {|3, 4|}] four_writers
       = Inr \<lparr>ldid = 8,
               chain_ldl = [(2, \<lparr>job_id = 3, version = 30, job_depth = 1, sterile = False\<rparr>),
                            (3, \<lparr>job_id = 4, version = 40, job_depth = 2, sterile = False\<rparr>),
                            (4, \<lparr>job_id = 5, version = 50, job_depth = 2, sterile = True\<rparr>)],
               parents_index = [Node 2, Node 3]\<rparr>
   \<and> index_unsterile
         \<lparr>ldid = 8,
          chain_ldl = [(2, \<lparr>job_id = 3, version = 30, job_depth = 1, sterile = False\<rparr>),
                       (3, \<lparr>job_id = 4, version = 40, job_depth = 2, sterile = False\<rparr>),
                       (4, \<lparr>job_id = 5, version = 50, job_depth = 2, sterile = True\<rparr>)],
          parents_index = [Node 2, Node 3]\<rparr>"
proof -
  let ?l = "\<lparr>ldid = 8,
          chain_ldl = [(2, \<lparr>job_id = 3, version = 30, job_depth = 1, sterile = False\<rparr>),
                       (3, \<lparr>job_id = 4, version = 40, job_depth = 2, sterile = False\<rparr>),
                       (4, \<lparr>job_id = 5, version = 50, job_depth = 2, sterile = True\<rparr>)],
          parents_index = [Node 2, Node 3]\<rparr>"
  have h1: "wf_lineage four_writers" by code_simp
  have h2: "run_ops [Append 5 50 2 True, InsertParent 6 25 1 False, Clean {|3, 4|}] four_writers
              = Inr ?l"
    by code_simp
  have h3: "AppendLdlEntry 5 50 2 True four_writers
       = Inr (True, four_writers\<lparr>chain_ldl := chain_ldl four_writers
                @ [(4, \<lparr>job_id = 5, version = 50, job_depth = 2, sterile = True\<rparr>)]\<rparr>)"
    by code_simp
  from parent_index_unsterile[of 0 four_writers _ ?l 5 50 2] h1 h2 h3 show ?thesis by blast
qed

text \<open>
  C3. What \<^verbatim>\<open>InsertParentLdlEntry\<close> stores in the parent index is \<^verbatim>\<open>it.base()\<close>, the
  iterator to the entry after the place of the insertion, not the iterator to the new
  entry. With jobs 1 and 3 in the chain (nodes 0 and 1), inserting job 2 at version 2
  makes the new node 2 between them, and the index becomes node 0, node 1, node 1: the
  new entry is not in the index.
\<close>

theorem InsertParentLdlEntry_indexes_successor:
  "InsertParentLdlEntry 2 2 1 False two_writers = Inr (True, \<lparr>ldid = 7,
          chain_ldl = [(0, \<lparr>job_id = 1, version = 1, job_depth = 0, sterile = False\<rparr>),
                       (2, \<lparr>job_id = 2, version = 2, job_depth = 1, sterile = False\<rparr>),
                       (1, \<lparr>job_id = 3, version = 3, job_depth = 1, sterile = False\<rparr>)],
          parents_index = [Node 0, Node 1, Node 1]\<rparr>)"
  by code_simp

text \<open>
  C4. With a version above every version of the chain, \<^verbatim>\<open>it.base()\<close> is \<^verbatim>\<open>end()\<close>:
  \<^verbatim>\<open>InsertParentLdlEntry\<close> stores \<^verbatim>\<open>end()\<close> in the parent index and then dereferences it
  in the loop that asserts that no index entry is sterile, which is undefined.
  \<^verbatim>\<open>AppendLdlEntry\<close> with the same arguments returns, with the new entry at the tail of the
  chain and the iterator to it at the tail of the index.
\<close>

theorem InsertParentLdlEntry_at_tail_undefined:
  "InsertParentLdlEntry 2 5 1 False two_writers = Inl UndefinedBehaviour
   \<and> AppendLdlEntry 2 5 1 False two_writers = Inr (True, \<lparr>ldid = 7,
          chain_ldl = [(0, \<lparr>job_id = 1, version = 1, job_depth = 0, sterile = False\<rparr>),
                       (1, \<lparr>job_id = 3, version = 3, job_depth = 1, sterile = False\<rparr>),
                       (2, \<lparr>job_id = 2, version = 5, job_depth = 1, sterile = False\<rparr>)],
          parents_index = [Node 0, Node 1, Node 2]\<rparr>)"
  by code_simp

section \<open>The last version of a chain\<close>

text \<open>
  C9 (as amended). \<^verbatim>\<open>LastVersionInChain\<close> has no value exactly on the empty chain, and
  \<^verbatim>\<open>AppendLdlEntry\<close> on the empty chain is undefined. After an \<^verbatim>\<open>AppendLdlEntry\<close> that
  returned, the last version is the appended one, and the chain stays non-empty (so the
  last version stays defined) through every later sequence of returning calls in which
  \<^verbatim>\<open>CleanChain\<close> is never called with the empty set.
\<close>

theorem LastVersionInChain_defined:
  "(LastVersionInChain l = None) = (chain_ldl l = [])
   \<and> (chain_ldl l = [] \<longrightarrow> AppendLdlEntry j v d s l = Inl UndefinedBehaviour)
   \<and> (AppendLdlEntry j v d s l = Inr (b, l1) \<longrightarrow> LastVersionInChain l1 = Some v)
   \<and> (AppendLdlEntry j v d s l = Inr (b, l1) \<and> Clean {||} \<notin> set ops \<and> run_ops ops l1 = Inr l2
        \<longrightarrow> LastVersionInChain l2 \<noteq> None)"
proof -
  have 1: "(LastVersionInChain l = None) = (chain_ldl l = [])"
    by (simp add: LastVersionInChain_def)
  have 2: "chain_ldl l = [] \<longrightarrow> AppendLdlEntry j v d s l = Inl UndefinedBehaviour"
    by (simp add: AppendLdlEntry_def LastVersionInChain_def)
  have 3: "LastVersionInChain l1 = Some v \<and> chain_ldl l1 \<noteq> []"
    if "AppendLdlEntry j v d s l = Inr (b, l1)"
    using AppendLdlEntry_InrD[OF that] by (auto simp: LastVersionInChain_def)
  have 4: "LastVersionInChain l2 \<noteq> None"
    if "AppendLdlEntry j v d s l = Inr (b, l1)" "Clean {||} \<notin> set ops" "run_ops ops l1 = Inr l2"
    using run_ops_nonempty[OF _ that(2,3)] 3[OF that(1)] by (simp add: LastVersionInChain_def)
  from 1 2 3 4 show ?thesis by blast
qed

text \<open>
  An append followed by \<^verbatim>\<open>CleanChain\<close> on the empty set leaves the empty chain, on which
  the last version has no value and the next append is undefined.
\<close>

theorem clear_then_append_counterexample:
  "run_ops [Append 2 5 1 False, Clean {||}] two_writers
     = Inr \<lparr>ldid = 7, chain_ldl = [], parents_index = []\<rparr>
   \<and> LastVersionInChain \<lparr>ldid = 7, chain_ldl = [], parents_index = []\<rparr> = None
   \<and> AppendLdlEntry 4 9 2 False \<lparr>ldid = 7, chain_ldl = [], parents_index = []\<rparr>
       = Inl UndefinedBehaviour"
  by code_simp

theorem LastVersionInChain_defined_witness:
  "chain_ldl (LogicalDataLineage_new 7) = []
   \<and> LastVersionInChain (LogicalDataLineage_new 7) = None
   \<and> AppendLdlEntry 1 1 0 False (LogicalDataLineage_new 7) = Inl UndefinedBehaviour
   \<and> AppendLdlEntry 2 5 1 False two_writers = Inr (True, \<lparr>ldid = 7,
          chain_ldl = [(0, \<lparr>job_id = 1, version = 1, job_depth = 0, sterile = False\<rparr>),
                       (1, \<lparr>job_id = 3, version = 3, job_depth = 1, sterile = False\<rparr>),
                       (2, \<lparr>job_id = 2, version = 5, job_depth = 1, sterile = False\<rparr>)],
          parents_index = [Node 0, Node 1, Node 2]\<rparr>)
   \<and> LastVersionInChain \<lparr>ldid = 7,
          chain_ldl = [(0, \<lparr>job_id = 1, version = 1, job_depth = 0, sterile = False\<rparr>),
                       (1, \<lparr>job_id = 3, version = 3, job_depth = 1, sterile = False\<rparr>),
                       (2, \<lparr>job_id = 2, version = 5, job_depth = 1, sterile = False\<rparr>)],
          parents_index = [Node 0, Node 1, Node 2]\<rparr> = Some 5
   \<and> Clean {||} \<notin> set [InsertParent 6 2 1 False, Clean {|3, 2|}]
   \<and> run_ops [InsertParent 6 2 1 False, Clean {|3, 2|}] \<lparr>ldid = 7,
          chain_ldl = [(0, \<lparr>job_id = 1, version = 1, job_depth = 0, sterile = False\<rparr>),
                       (1, \<lparr>job_id = 3, version = 3, job_depth = 1, sterile = False\<rparr>),
                       (2, \<lparr>job_id = 2, version = 5, job_depth = 1, sterile = False\<rparr>)],
          parents_index = [Node 0, Node 1, Node 2]\<rparr>
       = Inr \<lparr>ldid = 7,
               chain_ldl = [(1, \<lparr>job_id = 3, version = 3, job_depth = 1, sterile = False\<rparr>),
                            (2, \<lparr>job_id = 2, version = 5, job_depth = 1, sterile = False\<rparr>)],
               parents_index = [Node 1, Node 2]\<rparr>
   \<and> LastVersionInChain
         \<lparr>ldid = 7,
          chain_ldl = [(1, \<lparr>job_id = 3, version = 3, job_depth = 1, sterile = False\<rparr>),
                       (2, \<lparr>job_id = 2, version = 5, job_depth = 1, sterile = False\<rparr>)],
          parents_index = [Node 1, Node 2]\<rparr> \<noteq> None"
proof -
  let ?LA = "\<lparr>ldid = 7,
          chain_ldl = [(0, \<lparr>job_id = 1, version = 1, job_depth = 0, sterile = False\<rparr>),
                       (1, \<lparr>job_id = 3, version = 3, job_depth = 1, sterile = False\<rparr>),
                       (2, \<lparr>job_id = 2, version = 5, job_depth = 1, sterile = False\<rparr>)],
          parents_index = [Node 0, Node 1, Node 2]\<rparr>"
  let ?l2 = "\<lparr>ldid = 7,
          chain_ldl = [(1, \<lparr>job_id = 3, version = 3, job_depth = 1, sterile = False\<rparr>),
                       (2, \<lparr>job_id = 2, version = 5, job_depth = 1, sterile = False\<rparr>)],
          parents_index = [Node 1, Node 2]\<rparr>"
  have e: "chain_ldl (LogicalDataLineage_new 7) = []" by code_simp
  have a: "AppendLdlEntry 2 5 1 False two_writers = Inr (True, ?LA)" by code_simp
  have n: "Clean {||} \<notin> set [InsertParent 6 2 1 False, Clean {|3, 2|}]" by auto
  have r: "run_ops [InsertParent 6 2 1 False, Clean {|3, 2|}] ?LA = Inr ?l2" by code_simp
  from LastVersionInChain_defined[of "LogicalDataLineage_new 7" 1 1 0 False] e
  have 1: "LastVersionInChain (LogicalDataLineage_new 7) = None"
    and 2: "AppendLdlEntry 1 1 0 False (LogicalDataLineage_new 7) = Inl UndefinedBehaviour"
    by blast+
  from LastVersionInChain_defined[of two_writers 2 5 1 False True ?LA
      "[InsertParent 6 2 1 False, Clean {|3, 2|}]" ?l2] a n r
  have 3: "LastVersionInChain ?LA = Some 5" and 4: "LastVersionInChain ?l2 \<noteq> None"
    by blast+
  from e 1 2 a 3 n r 4 show ?thesis by blast
qed

end
